theory Spec2Isabelle
  imports Main "HOL-Library.Word"
begin

unbundle bit_operations_syntax

section \<open>Bytes, slices and little-endian fields\<close>

text \<open>
  The store is a single file accessed through a shared memory map, so the file image and
  the map are one byte sequence. Python's \<^verbatim>\<open>bytes\<close>, \<^verbatim>\<open>bytearray\<close> and
  \<^verbatim>\<open>mmap\<close> are lists of 8-bit words; offsets and sizes are Python integers that are
  never negative here and are modelled as \<^typ>\<open>nat\<close>.
\<close>

type_synonym byte = "8 word"

text \<open>\<^verbatim>\<open>int.from_bytes(bs, "little")\<close>, which is what \<^verbatim>\<open>struct.unpack\<close> does for the
  unsigned little-endian formats \<^verbatim>\<open><H\<close>, \<^verbatim>\<open><L\<close> and \<^verbatim>\<open><Q\<close>.\<close>

fun le_nat :: "byte list \<Rightarrow> nat" where
  "le_nat [] = 0"
| "le_nat (b # bs) = unat b + 256 * le_nat bs"

text \<open>The \<open>l\<close>-byte little-endian image of \<open>n\<close>; \<^verbatim>\<open>struct.pack\<close> checks the range
  before (see \<open>pack_header\<close> and \<open>put\<close>).\<close>

fun le_bytes :: "nat \<Rightarrow> nat \<Rightarrow> byte list" where
  "le_bytes 0 n = []"
| "le_bytes (Suc l) n = of_nat (n mod 256) # le_bytes l (n div 256)"

text \<open>\<^verbatim>\<open>xs[a:b]\<close> for \<open>0 \<le> a\<close>: a slice is clamped to the end of the sequence.\<close>

definition bslice :: "byte list \<Rightarrow> nat \<Rightarrow> nat \<Rightarrow> byte list" where
  "bslice xs a b = take (b - a) (drop a xs)"

text \<open>\<^verbatim>\<open>xs[a:a+len(ys)] = ys\<close> on a map that already covers the range.\<close>

definition patch :: "byte list \<Rightarrow> nat \<Rightarrow> byte list \<Rightarrow> byte list" where
  "patch xs a ys = take a xs @ ys @ drop (a + length ys) xs"

section \<open>BLAKE2b\<close>

text \<open>
  \<^verbatim>\<open>hashlib.blake2b(key, digest_size=n).digest()\<close>: unkeyed BLAKE2b (RFC 7693) with
  fanout 1 and depth 1. The 64-bit words are integers with the wrap-around written out.
\<close>

definition blake2b_iv :: "int list" where
  "blake2b_iv = [0x6a09e667f3bcc908, 0xbb67ae8584caa73b, 0x3c6ef372fe94f82b,
     0xa54ff53a5f1d36f1, 0x510e527fade682d1, 0x9b05688c2b3e6c1f,
     0x1f83d9abfb41bd6b, 0x5be0cd19137e2179]"

definition blake2b_sigma :: "nat list list" where
  "blake2b_sigma = [
   [0,1,2,3,4,5,6,7,8,9,10,11,12,13,14,15],
   [14,10,4,8,9,15,13,6,1,12,0,2,11,7,5,3],
   [11,8,12,0,5,2,15,13,10,14,3,6,7,1,9,4],
   [7,9,3,1,13,12,11,14,2,6,5,10,4,0,15,8],
   [9,0,5,7,2,4,10,15,14,1,11,12,6,8,3,13],
   [2,12,6,10,0,11,8,3,4,13,7,5,15,14,1,9],
   [12,5,1,15,14,13,4,10,0,7,6,3,9,2,8,11],
   [13,11,7,14,12,1,3,9,5,0,15,4,8,6,2,10],
   [6,15,14,9,11,3,0,8,12,2,13,7,1,4,10,5],
   [10,2,8,4,7,6,1,5,15,11,9,14,3,12,13,0]]"

definition add64 :: "int \<Rightarrow> int \<Rightarrow> int" where
  "add64 a b = (a + b) mod 2 ^ 64"

definition rotr64 :: "nat \<Rightarrow> int \<Rightarrow> int" where
  "rotr64 n w = w div 2 ^ n + (w mod 2 ^ n) * 2 ^ (64 - n)"

definition mix2 :: "int \<Rightarrow> int \<Rightarrow> int \<Rightarrow> int \<Rightarrow> nat \<Rightarrow> nat \<Rightarrow> int list" where
  "mix2 va vb vc vd r1 r2 =
     [va, rotr64 r2 (vb XOR (add64 vc (rotr64 r1 (vd XOR va)))),
      add64 vc (rotr64 r1 (vd XOR va)), rotr64 r1 (vd XOR va)]"

definition mix1 :: "int list \<Rightarrow> int \<Rightarrow> nat \<Rightarrow> nat \<Rightarrow> int list" where
  "mix1 q x r1 r2 = mix2 (add64 (add64 (q ! 0) (q ! 1)) x) (q ! 1) (q ! 2) (q ! 3) r1 r2"

definition blake2b_G :: "int list \<Rightarrow> nat \<Rightarrow> nat \<Rightarrow> nat \<Rightarrow> nat \<Rightarrow> int \<Rightarrow> int \<Rightarrow> int list" where
  "blake2b_G v a b c d x y =
     (case mix1 (mix1 [v ! a, v ! b, v ! c, v ! d] x 32 24) y 16 63 of
        [va, vb, vc, vd] \<Rightarrow> v[a := va, b := vb, c := vc, d := vd]
      | _ \<Rightarrow> v)"

definition blake2b_round :: "int list \<Rightarrow> nat list \<Rightarrow> int list \<Rightarrow> int list" where
  "blake2b_round m s v =
     blake2b_G (blake2b_G (blake2b_G (blake2b_G
     (blake2b_G (blake2b_G (blake2b_G (blake2b_G v
        0 4 8 12 (m ! (s ! 0)) (m ! (s ! 1)))
        1 5 9 13 (m ! (s ! 2)) (m ! (s ! 3)))
        2 6 10 14 (m ! (s ! 4)) (m ! (s ! 5)))
        3 7 11 15 (m ! (s ! 6)) (m ! (s ! 7)))
        0 5 10 15 (m ! (s ! 8)) (m ! (s ! 9)))
        1 6 11 12 (m ! (s ! 10)) (m ! (s ! 11)))
        2 7 8 13 (m ! (s ! 12)) (m ! (s ! 13)))
        3 4 9 14 (m ! (s ! 14)) (m ! (s ! 15))"

fun le_int :: "byte list \<Rightarrow> int" where
  "le_int [] = 0"
| "le_int (b # bs) = uint b + 256 * le_int bs"

fun int_le_bytes :: "nat \<Rightarrow> int \<Rightarrow> byte list" where
  "int_le_bytes 0 n = []"
| "int_le_bytes (Suc l) n = word_of_int (n mod 256) # int_le_bytes l (n div 256)"

fun block_words :: "nat \<Rightarrow> byte list \<Rightarrow> int list" where
  "block_words 0 bs = []"
| "block_words (Suc n) bs = le_int (take 8 bs) # block_words n (drop 8 bs)"

definition blake2b_init_v :: "int list \<Rightarrow> int \<Rightarrow> bool \<Rightarrow> int list" where
  "blake2b_init_v h t final =
     (h @ blake2b_iv)[12 := (blake2b_iv ! 4) XOR (t mod 2 ^ 64),
                      13 := (blake2b_iv ! 5) XOR (t div 2 ^ 64),
                      14 := (if final then (blake2b_iv ! 6) XOR (2 ^ 64 - 1) else blake2b_iv ! 6)]"

fun blake2b_finish :: "int list \<Rightarrow> int list \<Rightarrow> int list \<Rightarrow> int list" where
  "blake2b_finish (a # h) (b # lo) (c # hi) = (a XOR b XOR c) # blake2b_finish h lo hi"
| "blake2b_finish _ _ _ = []"

fun blake2b_rounds :: "int list \<Rightarrow> nat list \<Rightarrow> int list \<Rightarrow> int list" where
  "blake2b_rounds m [] v = v"
| "blake2b_rounds m (r # rs) v =
     blake2b_rounds m rs (blake2b_round m (blake2b_sigma ! (r mod 10)) v)"

definition blake2b_mixed :: "int list \<Rightarrow> int list \<Rightarrow> int list" where
  "blake2b_mixed h v = blake2b_finish h (take 8 v) (drop 8 v)"

definition blake2b_compress :: "int list \<Rightarrow> byte list \<Rightarrow> int \<Rightarrow> bool \<Rightarrow> int list" where
  "blake2b_compress h blk t final =
     blake2b_mixed h (blake2b_rounds (block_words 16 blk) [0..<12] (blake2b_init_v h t final))"

function blake2b_blocks :: "int list \<Rightarrow> int \<Rightarrow> byte list \<Rightarrow> int list" where
  "blake2b_blocks h t bs =
     (if length bs \<le> 128
      then blake2b_compress h (bs @ replicate (128 - length bs) 0) (t + int (length bs)) True
      else blake2b_blocks (blake2b_compress h (take 128 bs) (t + 128) False) (t + 128) (drop 128 bs))"
  by pat_completeness auto
termination by (relation "measure (\<lambda>(h, t, bs). length bs)") auto

declare blake2b_blocks.simps [simp del]

definition blake2b :: "byte list \<Rightarrow> nat \<Rightarrow> byte list" where
  "blake2b data digest_size =
     take digest_size (concat (map (int_le_bytes 8)
       (blake2b_blocks (blake2b_iv[0 := (blake2b_iv ! 0) XOR (0x01010000 + int digest_size)]) 0 data)))"

section \<open>Constants (const.py)\<close>

definition MAGIC :: "byte list" where
  "MAGIC = [0x53, 0x48, 0x53, 0x31]"

abbreviation (input) HEADER_SIZE :: nat where "HEADER_SIZE \<equiv> 24"
abbreviation (input) BUCKET_SIZE :: nat where "BUCKET_SIZE \<equiv> 8"
abbreviation (input) ENTRY_HDR_SIZE :: nat where "ENTRY_HDR_SIZE \<equiv> 20"
abbreviation (input) VERSION_MINOR :: nat where "VERSION_MINOR \<equiv> 0"

section \<open>Exceptions\<close>

datatype error =
    ValueError string
  | StructError
  | IndexError
  | ZeroDivisionError
  | UnicodeEncodeError
  | OverflowError

section \<open>Bloom filter (bloom.py)\<close>

text \<open>
  \<^verbatim>\<open>Bloom.__init__\<close> clamps \<^verbatim>\<open>n_items\<close> to at least 1 and computes
  \<^verbatim>\<open>m = ceil(-(n_items * log(fp_rate)) / (log(2) ** 2))\<close> and
  \<^verbatim>\<open>k = ceil((m / n_items) * log(2))\<close> in floating point, which has no counterpart
  here. The store passes \<^verbatim>\<open>n_items = 1\<close> at both of its calls, so the two numbers
  depend on \<^verbatim>\<open>bloom_fp\<close> only, and the model takes the pair \<open>(m, k)\<close> that the
  formulas yield as the parameter in place of the rate: \<open>(10, 7)\<close> for the default rate
  0.01, since \<open>4.605 / 0.4805 = 9.58\<close> and \<open>10 * 0.6931 = 6.93\<close>. The pair stands for
  a constructor call that returns. A rate that is not positive makes \<^verbatim>\<open>log\<close> raise,
  and a rate above 1 gives a negative \<open>m\<close> and a \<open>k\<close> that is not positive: then
  \<^verbatim>\<open>range(k)\<close> is empty and \<open>m\<close> is never used, which is the behaviour of
  \<open>k = 0\<close> here (the allocation of a new byte array of negative length raises).
\<close>

record Bloom =
  bloom_m :: nat
  bloom_k :: nat
  bloom_bits :: "byte list"

definition Bloom_init :: "nat \<times> nat \<Rightarrow> byte list option \<Rightarrow> Bloom" where
  "Bloom_init mk bits =
     \<lparr>bloom_m = fst mk, bloom_k = snd mk,
      bloom_bits = (case bits of Some bs \<Rightarrow> bs | None \<Rightarrow> replicate ((fst mk + 7) div 8) 0)\<rparr>"

definition Bloom_from_bytes :: "nat \<times> nat \<Rightarrow> byte list \<Rightarrow> Bloom" where
  "Bloom_from_bytes mk data = Bloom_init mk (Some data)"

text \<open>The two 64-bit halves of the 16-byte digest, \<^verbatim>\<open>struct.unpack("<QQ", h)\<close>.\<close>

definition hash_pair :: "byte list \<Rightarrow> nat \<times> nat" where
  "hash_pair key = (le_nat (take 8 (blake2b key 16)), le_nat (drop 8 (blake2b key 16)))"

text \<open>
  \<^verbatim>\<open>_hashes\<close> is a generator: it reads \<^verbatim>\<open>self.m\<close> each time it yields, so a growth
  in the body of \<^verbatim>\<open>add\<close> changes the modulus of the indices still to come. The loops
  below take the remaining values of \<open>i\<close> and read \<open>bloom_m\<close> at every step.
\<close>

fun add_bits :: "nat \<Rightarrow> nat \<Rightarrow> nat list \<Rightarrow> Bloom \<Rightarrow> error + Bloom" where
  "add_bits h1 h2 [] b = Inr b"
| "add_bits h1 h2 (i # is) b =
     (if bloom_m b = 0 then Inl ZeroDivisionError
      else
        let bit = (h1 + i * h2) mod bloom_m b;
            byte_i = bit div 8;
            b1 = (if length (bloom_bits b) \<le> byte_i
                  then b\<lparr>bloom_bits := bloom_bits b @ replicate (byte_i + 1 - length (bloom_bits b)) 0,
                         bloom_m := (byte_i + 1) * 8\<rparr>
                  else b)
        in add_bits h1 h2 is
             (b1\<lparr>bloom_bits := (bloom_bits b1)
                    [byte_i := (bloom_bits b1 ! byte_i) OR push_bit (bit mod 8) 1]\<rparr>))"

definition Bloom_add :: "Bloom \<Rightarrow> byte list \<Rightarrow> error + Bloom" where
  "Bloom_add b key = add_bits (fst (hash_pair key)) (snd (hash_pair key)) [0..<bloom_k b] b"

text \<open>\<^verbatim>\<open>all(...)\<close> over the generator stops at the first bit that is clear; an index past
  the byte array raises.\<close>

fun contains_bits :: "nat \<Rightarrow> nat \<Rightarrow> nat list \<Rightarrow> Bloom \<Rightarrow> error + bool" where
  "contains_bits h1 h2 [] b = Inr True"
| "contains_bits h1 h2 (i # is) b =
     (if bloom_m b = 0 then Inl ZeroDivisionError
      else if length (bloom_bits b) \<le> ((h1 + i * h2) mod bloom_m b) div 8 then Inl IndexError
      else if (bloom_bits b ! (((h1 + i * h2) mod bloom_m b) div 8))
                AND push_bit (((h1 + i * h2) mod bloom_m b) mod 8) 1 = 0
      then Inr False
      else contains_bits h1 h2 is b)"

definition Bloom_contains :: "Bloom \<Rightarrow> byte list \<Rightarrow> error + bool" where
  "Bloom_contains b key =
     contains_bits (fst (hash_pair key)) (snd (hash_pair key)) [0..<bloom_k b] b"

section \<open>The store (store.py)\<close>

text \<open>
  The file is open and mapped for the whole life of the object, so \<open>mm\<close> is the file.
  \<open>bloom_mk\<close> stands for \<^verbatim>\<open>bloom_fp\<close> (see above). The advisory lock taken by
  \<^verbatim>\<open>put\<close> does not change the state of a single store and is left out. The segment
  count of a store that the constructor returns fits the 32 bits of its header field, so a
  bucket offset stays far below \<open>2^63\<close>; an offset read from an entry can be any 64-bit
  number.
\<close>

record StaticHashStore =
  key_size :: nat
  segments :: nat
  bloom_mk :: "nat \<times> nat"
  mm :: "byte list"
  bloom :: Bloom
  header_dirty :: bool

text \<open>\<^verbatim>\<open>struct.pack("<4sHHLQ", MAGIC, VERSION_MINOR, key_size, segments, bloom_bits)\<close>:
  20 bytes, or \<^verbatim>\<open>struct.error\<close> when a field does not fit its width.\<close>

definition pack_header :: "nat \<Rightarrow> nat \<Rightarrow> nat \<Rightarrow> error + byte list" where
  "pack_header key_sz seg_cnt bloom_cnt =
     (if key_sz < 2 ^ 16 \<and> seg_cnt < 2 ^ 32 \<and> bloom_cnt < 2 ^ 64
      then Inr (MAGIC @ le_bytes 2 VERSION_MINOR @ le_bytes 2 key_sz
                @ le_bytes 4 seg_cnt @ le_bytes 8 bloom_cnt)
      else Inl StructError)"

definition create_new :: "nat \<Rightarrow> nat \<Rightarrow> nat \<times> nat \<Rightarrow> error + StaticHashStore" where
  "create_new key_sz seg_cnt mk =
     (case pack_header key_sz seg_cnt 1 of
        Inl e \<Rightarrow> Inl e
      | Inr header \<Rightarrow>
          Inr \<lparr>key_size = key_sz, segments = seg_cnt, bloom_mk = mk,
               mm = header @ replicate (HEADER_SIZE - length header) 0
                    @ replicate (BUCKET_SIZE * seg_cnt) 0 @ replicate 1 0,
               bloom = Bloom_init mk None, header_dirty = True\<rparr>)"

definition open_existing :: "byte list \<Rightarrow> nat \<Rightarrow> nat \<times> nat \<Rightarrow> error + StaticHashStore" where
  "open_existing file key_sz mk =
     (if file = [] then Inl (ValueError ''cannot mmap an empty file'')
      else if length file < 20 then Inl StructError
      else if bslice file 0 4 \<noteq> MAGIC then Inl (ValueError ''Invalid store file'')
      else if le_nat (bslice file 6 8) \<noteq> key_sz then Inl (ValueError ''Key size mismatch'')
      else
        let seg_cnt = le_nat (bslice file 8 12);
            bloom_cnt = le_nat (bslice file 12 20);
            bloom_off = HEADER_SIZE + BUCKET_SIZE * seg_cnt
        in Inr \<lparr>key_size = key_sz, segments = seg_cnt, bloom_mk = mk, mm = file,
                bloom = Bloom_from_bytes mk (bslice file bloom_off (bloom_off + bloom_cnt)),
                header_dirty = False\<rparr>)"

text \<open>\<^verbatim>\<open>__init__\<close>: \<open>None\<close> when the path does not exist, else the file's bytes.\<close>

definition StaticHashStore_init ::
  "byte list option \<Rightarrow> nat \<Rightarrow> nat \<Rightarrow> nat \<times> nat \<Rightarrow> error + StaticHashStore" where
  "StaticHashStore_init file key_sz seg_cnt mk =
     (case file of None \<Rightarrow> create_new key_sz seg_cnt mk
      | Some f \<Rightarrow> open_existing f key_sz mk)"

definition key_hash :: "byte list \<Rightarrow> nat" where
  "key_hash key = le_nat (blake2b key 8)"

definition segment_of :: "StaticHashStore \<Rightarrow> nat \<Rightarrow> nat" where
  "segment_of st h = h mod segments st"

definition bucket_offset :: "nat \<Rightarrow> nat" where
  "bucket_offset segment = HEADER_SIZE + segment * BUCKET_SIZE"

text \<open>The fields of the entry header at \<open>e\<close>, \<^verbatim>\<open>struct.unpack_from("<QQL", mm, e)\<close>.\<close>

definition entry_next :: "byte list \<Rightarrow> nat \<Rightarrow> nat" where
  "entry_next f e = le_nat (bslice f e (e + 8))"

definition entry_hash :: "byte list \<Rightarrow> nat \<Rightarrow> nat" where
  "entry_hash f e = le_nat (bslice f (e + 8) (e + 16))"

definition entry_val_sz :: "byte list \<Rightarrow> nat \<Rightarrow> nat" where
  "entry_val_sz f e = le_nat (bslice f (e + 16) (e + 20))"

text \<open>The \<^verbatim>\<open>while entry_of:\<close> loop of \<^verbatim>\<open>get\<close>. Nothing bounds the number of
  iterations, so the loop is a partial function: \<open>None\<close> is a walk that never returns.
  \<^verbatim>\<open>struct.unpack_from\<close> takes the offset as a C \<^verbatim>\<open>ssize_t\<close>: an offset from
  \<open>2^63\<close> on raises \<^verbatim>\<open>OverflowError\<close>, a smaller one that leaves fewer than 20
  bytes raises \<^verbatim>\<open>struct.error\<close>.\<close>

partial_function (option) chain_walk ::
  "byte list \<Rightarrow> nat \<Rightarrow> nat \<Rightarrow> byte list \<Rightarrow> nat \<Rightarrow> (error + byte list option) option" where
  "chain_walk f ks h_int key entry_of =
     (if entry_of = 0 then Some (Inr None)
      else if 2 ^ 63 \<le> entry_of then Some (Inl OverflowError)
      else if length f < entry_of + ENTRY_HDR_SIZE then Some (Inl StructError)
      else if entry_hash f entry_of = h_int
              \<and> bslice f (entry_of + ENTRY_HDR_SIZE) (entry_of + ENTRY_HDR_SIZE + ks) = key
      then Some (Inr (Some (bslice f (entry_of + ENTRY_HDR_SIZE + ks)
                    (entry_of + ENTRY_HDR_SIZE + ks + entry_val_sz f entry_of))))
      else chain_walk f ks h_int key (entry_next f entry_of))"

definition get ::
  "StaticHashStore \<Rightarrow> byte list \<Rightarrow> ((error + byte list option) \<times> StaticHashStore) option" where
  "get st key =
     (case Bloom_contains (bloom st) key of
        Inl e \<Rightarrow> Some (Inl e, st)
      | Inr False \<Rightarrow> Some (Inr None, st)
      | Inr True \<Rightarrow>
          if segments st = 0 then Some (Inl ZeroDivisionError, st)
          else if length (mm st) < bucket_offset (segment_of st (key_hash key)) + BUCKET_SIZE
          then Some (Inl StructError, st)
          else map_option (\<lambda>r. (r, st))
                 (chain_walk (mm st) (key_size st) (key_hash key) key
                    (le_nat (bslice (mm st) (bucket_offset (segment_of st (key_hash key)))
                       (bucket_offset (segment_of st (key_hash key)) + BUCKET_SIZE)))))"

text \<open>A value handed to \<^verbatim>\<open>put\<close>: bytes, or a \<^verbatim>\<open>str\<close> (its code points), which
  \<^verbatim>\<open>put\<close> encodes as UTF-8 first.\<close>

datatype pyvalue = Bytes "byte list" | Str "nat list"

definition utf8_char :: "nat \<Rightarrow> error + byte list" where
  "utf8_char c =
     (if c < 0x80 then Inr [of_nat c]
      else if c < 0x800 then Inr [of_nat (0xC0 + c div 64), of_nat (0x80 + c mod 64)]
      else if 0xD800 \<le> c \<and> c < 0xE000 then Inl UnicodeEncodeError
      else if c < 0x10000
      then Inr [of_nat (0xE0 + c div 4096), of_nat (0x80 + c div 64 mod 64),
                of_nat (0x80 + c mod 64)]
      else Inr [of_nat (0xF0 + c div 262144), of_nat (0x80 + c div 4096 mod 64),
                of_nat (0x80 + c div 64 mod 64), of_nat (0x80 + c mod 64)])"

fun utf8_encode :: "nat list \<Rightarrow> error + byte list" where
  "utf8_encode [] = Inr []"
| "utf8_encode (c # cs) =
     (case utf8_char c of
        Inl e \<Rightarrow> Inl e
      | Inr bs \<Rightarrow> (case utf8_encode cs of Inl e \<Rightarrow> Inl e | Inr rest \<Rightarrow> Inr (bs @ rest)))"

definition encode_value :: "pyvalue \<Rightarrow> error + byte list" where
  "encode_value v = (case v of Bytes bs \<Rightarrow> Inr bs | Str cs \<Rightarrow> utf8_encode cs)"

text \<open>\<^verbatim>\<open>put\<close> returns the outcome together with the state the object is left in: an
  exception raised half-way leaves the mutations made before it. \<^verbatim>\<open>mmap.resize\<close>
  takes the new size as a C \<^verbatim>\<open>ssize_t\<close> and raises \<^verbatim>\<open>OverflowError\<close> from
  \<open>2^63\<close> on; after it the old size fits the \<^verbatim>\<open><Q\<close> of the bucket slot. Failures of
  the file system itself are not modelled.\<close>

definition put ::
  "StaticHashStore \<Rightarrow> byte list \<Rightarrow> pyvalue \<Rightarrow> (error + unit) \<times> StaticHashStore" where
  "put st key v =
     (if length key \<noteq> key_size st then (Inl (ValueError ''Key length mismatch''), st)
      else case encode_value v of
        Inl e \<Rightarrow> (Inl e, st)
      | Inr val \<Rightarrow>
          if segments st = 0 then (Inl ZeroDivisionError, st)
          else
            let bucket_ptr_off = bucket_offset (segment_of st (key_hash key)) in
            if length (mm st) < bucket_ptr_off + BUCKET_SIZE then (Inl StructError, st)
            else
              let bucket_head = le_nat (bslice (mm st) bucket_ptr_off (bucket_ptr_off + BUCKET_SIZE));
                  eof = length (mm st)
              in
              if 2 ^ 32 \<le> length val then (Inl StructError, st)
              else
                let entry = le_bytes 8 bucket_head @ le_bytes 8 (key_hash key)
                            @ le_bytes 4 (length val) @ key @ val
                in
                if 2 ^ 63 \<le> eof + length entry then (Inl OverflowError, st)
                else
                  let st1 = st\<lparr>mm := mm st @ entry\<rparr>;
                      st2 = st1\<lparr>mm := patch (mm st1) bucket_ptr_off (le_bytes 8 eof)\<rparr>
                  in
                  (case Bloom_add (bloom st2) key of
                     Inl e \<Rightarrow> (Inl e, st2)
                   | Inr b \<Rightarrow> (Inr (), st2\<lparr>bloom := b, header_dirty := True\<rparr>)))"

definition flush :: "StaticHashStore \<Rightarrow> (error + unit) \<times> StaticHashStore" where
  "flush st =
     (if header_dirty st then
        let bloom_cnt = length (bloom_bits (bloom st));
            bloom_off = HEADER_SIZE + BUCKET_SIZE * segments st;
            st1 = (if length (mm st) < bloom_off + bloom_cnt
                   then st\<lparr>mm := mm st @ replicate (bloom_off + bloom_cnt - length (mm st)) 0\<rparr>
                   else st);
            st2 = st1\<lparr>mm := patch (mm st1) bloom_off (bloom_bits (bloom st))\<rparr>
        in (case pack_header (key_size st) (segments st) bloom_cnt of
              Inl e \<Rightarrow> (Inl e, st2)
            | Inr header \<Rightarrow>
                if length (mm st2) < length header then (Inl IndexError, st2)
                else (Inr (), st2\<lparr>mm := patch (mm st2) 0 header, header_dirty := False\<rparr>))
      else (Inr (), st))"

text \<open>\<^verbatim>\<open>close\<close> flushes and releases the map; what remains is the file.\<close>

definition close :: "StaticHashStore \<Rightarrow> error + byte list" where
  "close st = (case flush st of (Inl e, _) \<Rightarrow> Inl e | (Inr _, st') \<Rightarrow> Inr (mm st'))"


section \<open>Specification predicates\<close>

text \<open>Bit \<open>p\<close> of the filter is inside the byte array and set: the test that
  \<^verbatim>\<open>__contains__\<close> makes for one index.\<close>

definition bit_set :: "Bloom \<Rightarrow> nat \<Rightarrow> bool" where
  "bit_set b p \<longleftrightarrow>
     p div 8 < length (bloom_bits b) \<and> (bloom_bits b ! (p div 8)) AND push_bit (p mod 8) 1 \<noteq> 0"

text \<open>Every index that the filter computes for the listed values of \<open>i\<close> falls inside
  the byte array, so that \<^verbatim>\<open>add\<close> does not grow it.\<close>

definition in_range :: "nat \<Rightarrow> nat \<Rightarrow> nat list \<Rightarrow> Bloom \<Rightarrow> bool" where
  "in_range h1 h2 is b \<longleftrightarrow>
     (is = [] \<or> 0 < bloom_m b) \<and>
     list_all (\<lambda>i. ((h1 + i * h2) mod bloom_m b) div 8 < length (bloom_bits b)) is"

text \<open>The byte array holds at least \<open>m\<close> bits, as it does in every filter that
  \<^verbatim>\<open>Bloom.__init__\<close> allocates itself.\<close>

definition covers :: "Bloom \<Rightarrow> bool" where
  "covers b \<longleftrightarrow> 0 < bloom_m b \<and> bloom_m b \<le> 8 * length (bloom_bits b)"

text \<open>The entry that \<^verbatim>\<open>put\<close> appends for an encoded value, and the map it leaves.\<close>

definition entry_bytes :: "StaticHashStore \<Rightarrow> byte list \<Rightarrow> byte list \<Rightarrow> byte list" where
  "entry_bytes st key val =
     le_bytes 8 (le_nat (bslice (mm st) (bucket_offset (segment_of st (key_hash key)))
                    (bucket_offset (segment_of st (key_hash key)) + 8)))
     @ le_bytes 8 (key_hash key) @ le_bytes 4 (length val) @ key @ val"

definition put_mm :: "StaticHashStore \<Rightarrow> byte list \<Rightarrow> byte list \<Rightarrow> byte list" where
  "put_mm st key val =
     patch (mm st @ entry_bytes st key val) (bucket_offset (segment_of st (key_hash key)))
       (le_bytes 8 (length (mm st)))"

text \<open>What \<^verbatim>\<open>put\<close> needs besides a key of the right length and a value that fits:
  at least one segment, the whole bucket table inside the file, a file that stays shorter
  than \<open>2^63\<close> bytes with one more entry, and a filter whose modulus is not zero.\<close>

definition usable :: "StaticHashStore \<Rightarrow> bool" where
  "usable st \<longleftrightarrow>
     0 < segments st \<and> 24 + 8 * segments st \<le> length (mm st)
     \<and> length (mm st) + 20 + key_size st + 2 ^ 32 \<le> 2 ^ 63
     \<and> (bloom_k (bloom st) = 0 \<or> 0 < bloom_m (bloom st))"

text \<open>The head of the chain of a segment, \<^verbatim>\<open>struct.unpack_from("<Q", mm, 24 + 8*seg)\<close>.\<close>

definition bucket_head :: "byte list \<Rightarrow> nat \<Rightarrow> nat" where
  "bucket_head f seg = le_nat (bslice f (bucket_offset seg) (bucket_offset seg + 8))"

text \<open>The chain that starts at offset \<open>e\<close> is sound: every entry header lies inside the
  file at or after \<open>lo\<close>, every \<open>next_offset\<close> is smaller than the offset of its entry,
  and the chain ends at 0.\<close>

function chain_ok :: "byte list \<Rightarrow> nat \<Rightarrow> nat \<Rightarrow> bool" where
  "chain_ok f lo e =
     (if e = 0 then True
      else if lo \<le> e \<and> e + 20 \<le> length f \<and> entry_next f e < e
      then chain_ok f lo (entry_next f e)
      else False)"
  by pat_completeness auto
termination by (relation "measure (\<lambda>(f, lo, e). e)") auto

declare chain_ok.simps [simp del]

text \<open>The bucket table lies inside the file and every chain is sound, with all entries
  after the table.\<close>

definition chains_ok :: "StaticHashStore \<Rightarrow> bool" where
  "chains_ok st \<longleftrightarrow>
     24 + 8 * segments st \<le> length (mm st) \<and>
     list_all (\<lambda>seg. chain_ok (mm st) (24 + 8 * segments st) (bucket_head (mm st) seg))
       [0..<segments st]"

text \<open>Within \<open>n\<close> steps the walk that starts at \<open>e\<close> for the key comes to read the entry
  header at \<open>e'\<close>: every entry before it lies inside the file and does not match.\<close>

fun walk_reaches ::
  "nat \<Rightarrow> byte list \<Rightarrow> nat \<Rightarrow> nat \<Rightarrow> byte list \<Rightarrow> nat \<Rightarrow> nat \<Rightarrow> bool" where
  "walk_reaches 0 f ks h key e e' \<longleftrightarrow> e = e'"
| "walk_reaches (Suc n) f ks h key e e' \<longleftrightarrow>
     e = e' \<or>
     (e \<noteq> 0 \<and> e < 2 ^ 63 \<and> e + 20 \<le> length f
      \<and> \<not> (entry_hash f e = h \<and> bslice f (e + 20) (e + 20 + ks) = key)
      \<and> walk_reaches n f ks h key (entry_next f e) e')"

section \<open>Concrete stores and keys\<close>

text \<open>The store that \<^verbatim>\<open>StaticHashStore(path, key_size=8)\<close> creates when the path does
  not exist: 256 segments, the default rate 0.01, a file of \<open>24 + 2048 + 1\<close> bytes.\<close>

definition demo_store :: StaticHashStore where
  "demo_store =
     \<lparr>key_size = 8, segments = 256, bloom_mk = (10, 7),
      mm = [0x53, 0x48, 0x53, 0x31, 0, 0, 8, 0, 0, 1, 0, 0, 1, 0, 0, 0, 0, 0, 0, 0, 0, 0, 0, 0]
           @ replicate 2048 0 @ [0],
      bloom = \<lparr>bloom_m = 10, bloom_k = 7, bloom_bits = [0, 0]\<rparr>,
      header_dirty = True\<rparr>"

text \<open>The keys and values of the scenarios: \<^verbatim>\<open>b"\x00\x00\x00\x00\x00\x00\x00\x01"\<close>,
  \<^verbatim>\<open>b"KEY_____"\<close>, \<^verbatim>\<open>b"short"\<close>, \<^verbatim>\<open>b"hello"\<close>, \<^verbatim>\<open>b"v1"\<close>,
  \<^verbatim>\<open>b"v2"\<close> and \<^verbatim>\<open>b"x"\<close>.\<close>

definition key_one :: "byte list" where
  "key_one = [0, 0, 0, 0, 0, 0, 0, 1]"

definition key_KEY :: "byte list" where
  "key_KEY = [0x4b, 0x45, 0x59, 0x5f, 0x5f, 0x5f, 0x5f, 0x5f]"

definition key_short :: "byte list" where
  "key_short = [0x73, 0x68, 0x6f, 0x72, 0x74]"

definition val_hello :: "byte list" where
  "val_hello = [0x68, 0x65, 0x6c, 0x6c, 0x6f]"

definition val_v1 :: "byte list" where
  "val_v1 = [0x76, 0x31]"

definition val_v2 :: "byte list" where
  "val_v2 = [0x76, 0x32]"

definition val_x :: "byte list" where
  "val_x = [0x78]"

text \<open>The store that \<^verbatim>\<open>StaticHashStore(path, key_size=8, segments=1)\<close> creates, and
  the file that closing it at once leaves: the header now counts two filter bytes.\<close>

definition small_store :: StaticHashStore where
  "small_store =
     \<lparr>key_size = 8, segments = 1, bloom_mk = (10, 7),
      mm = [0x53, 0x48, 0x53, 0x31, 0, 0, 8, 0, 1, 0, 0, 0, 1, 0, 0, 0, 0, 0, 0, 0, 0, 0, 0, 0,
            0, 0, 0, 0, 0, 0, 0, 0, 0],
      bloom = \<lparr>bloom_m = 10, bloom_k = 7, bloom_bits = [0, 0]\<rparr>,
      header_dirty = True\<rparr>"



text \<open>A file image whose only bucket head, 1000, points past the end of the 34 bytes;
  both filter bytes are \<open>0xFF\<close>, so that the filter answers true for every key.\<close>

definition corrupt_file :: "byte list" where
  "corrupt_file =
     [0x53, 0x48, 0x53, 0x31, 0, 0, 8, 0, 1, 0, 0, 0, 2, 0, 0, 0, 0, 0, 0, 0, 0, 0, 0, 0,
      0xE8, 0x03, 0, 0, 0, 0, 0, 0, 0xFF, 0xFF]"

definition corrupt_store :: StaticHashStore where
  "corrupt_store =
     \<lparr>key_size = 8, segments = 1, bloom_mk = (10, 7), mm = corrupt_file,
      bloom = \<lparr>bloom_m = 10, bloom_k = 7, bloom_bits = [0xFF, 0xFF]\<rparr>,
      header_dirty = False\<rparr>"

text \<open>A store on a 62-byte image whose bucket head, 34, points to an entry inside the
  file with another key (eight bytes \<open>0xAA\<close>) and the \<open>next_offset\<close> 1000, past the end.\<close>

definition dangling_store :: StaticHashStore where
  "dangling_store =
     \<lparr>key_size = 8, segments = 1, bloom_mk = (10, 7),
      mm = [0x53, 0x48, 0x53, 0x31, 0, 0, 8, 0, 1, 0, 0, 0, 2, 0, 0, 0, 0, 0, 0, 0, 0, 0, 0, 0,
            34, 0, 0, 0, 0, 0, 0, 0, 0xFF, 0xFF,
            0xE8, 0x03, 0, 0, 0, 0, 0, 0, 0, 0, 0, 0, 0, 0, 0, 0, 0, 0, 0, 0,
            0xAA, 0xAA, 0xAA, 0xAA, 0xAA, 0xAA, 0xAA, 0xAA],
      bloom = \<lparr>bloom_m = 10, bloom_k = 7, bloom_bits = [0xFF, 0xFF]\<rparr>,
      header_dirty = False\<rparr>"

text \<open>The store that opening the file of \<open>demo_store\<close> gives while that file has never
  been flushed (a second opener, or a first process that ended without \<^verbatim>\<open>close\<close>):
  the header still counts one filter byte, so one byte is reloaded, and \<open>m\<close> is 10.\<close>

definition unflushed_store :: StaticHashStore where
  "unflushed_store =
     \<lparr>key_size = 8, segments = 256, bloom_mk = (10, 7), mm = mm demo_store,
      bloom = \<lparr>bloom_m = 10, bloom_k = 7, bloom_bits = [0]\<rparr>,
      header_dirty = False\<rparr>"

text \<open>The key \<^verbatim>\<open>struct.pack("<Q", 5)\<close>, which is never put below.\<close>

definition key_five :: "byte list" where
  "key_five = [5, 0, 0, 0, 0, 0, 0, 0]"

text \<open>\<open>small_store\<close> after \<^verbatim>\<open>put(b"\x00\x00\x00\x00\x00\x00\x00\x01", b"hello")\<close>: the
  entry starts at offset 33, right after the single filter byte of the new file.\<close>

definition small_store_put :: StaticHashStore where
  "small_store_put =
     \<lparr>key_size = 8, segments = 1, bloom_mk = (10, 7),
      mm = [0x53, 0x48, 0x53, 0x31, 0, 0, 8, 0, 1, 0, 0, 0, 1, 0, 0, 0, 0, 0, 0, 0, 0, 0, 0, 0,
            33, 0, 0, 0, 0, 0, 0, 0, 0,
            0, 0, 0, 0, 0, 0, 0, 0, 81, 153, 195, 93, 40, 239, 218, 184, 5, 0, 0, 0,
            0, 0, 0, 0, 0, 0, 0, 1, 104, 101, 108, 108, 111],
      bloom = \<lparr>bloom_m = 10, bloom_k = 7, bloom_bits = [170, 2]\<rparr>,
      header_dirty = True\<rparr>"

text \<open>The file that closing \<open>small_store_put\<close> leaves, and the store that opening it
  gives: the two filter bytes lie at offsets 32 and 33, the second one on the first byte of
  the entry.\<close>

definition put_closed_file :: "byte list" where
  "put_closed_file =
     [0x53, 0x48, 0x53, 0x31, 0, 0, 8, 0, 1, 0, 0, 0, 2, 0, 0, 0, 0, 0, 0, 0, 0, 0, 0, 0,
      33, 0, 0, 0, 0, 0, 0, 0, 170,
      2, 0, 0, 0, 0, 0, 0, 0, 81, 153, 195, 93, 40, 239, 218, 184, 5, 0, 0, 0,
      0, 0, 0, 0, 0, 0, 0, 1, 104, 101, 108, 108, 111]"

definition put_reopened_store :: StaticHashStore where
  "put_reopened_store =
     \<lparr>key_size = 8, segments = 1, bloom_mk = (10, 7), mm = put_closed_file,
      bloom = \<lparr>bloom_m = 10, bloom_k = 7, bloom_bits = [170, 2]\<rparr>,
      header_dirty = False\<rparr>"

text \<open>\<open>small_store_put\<close> after \<^verbatim>\<open>flush\<close>: the same bytes as the closed file.\<close>

definition small_store_flushed :: StaticHashStore where
  "small_store_flushed =
     \<lparr>key_size = 8, segments = 1, bloom_mk = (10, 7), mm = put_closed_file,
      bloom = \<lparr>bloom_m = 10, bloom_k = 7, bloom_bits = [170, 2]\<rparr>,
      header_dirty = False\<rparr>"

text \<open>A store on a file image whose header counts no filter byte at all, and one whose
  only bucket head is \<open>2^63\<close>.\<close>

definition blind_store :: StaticHashStore where
  "blind_store =
     \<lparr>key_size = 8, segments = 1, bloom_mk = (10, 7),
      mm = [0x53, 0x48, 0x53, 0x31, 0, 0, 8, 0, 1, 0, 0, 0, 0, 0, 0, 0, 0, 0, 0, 0, 0, 0, 0, 0,
            0, 0, 0, 0, 0, 0, 0, 0],
      bloom = \<lparr>bloom_m = 10, bloom_k = 7, bloom_bits = []\<rparr>,
      header_dirty = False\<rparr>"

definition far_store :: StaticHashStore where
  "far_store =
     \<lparr>key_size = 8, segments = 1, bloom_mk = (10, 7),
      mm = [0x53, 0x48, 0x53, 0x31, 0, 0, 8, 0, 1, 0, 0, 0, 2, 0, 0, 0, 0, 0, 0, 0, 0, 0, 0, 0,
            0, 0, 0, 0, 0, 0, 0, 0x80, 0xFF, 0xFF],
      bloom = \<lparr>bloom_m = 10, bloom_k = 7, bloom_bits = [0xFF, 0xFF]\<rparr>,
      header_dirty = False\<rparr>"


section \<open>Little-endian fields and slices\<close>

lemma length_le_bytes [simp]: "length (le_bytes l n) = l"
  by (induction l arbitrary: n) auto

lemma le_nat_bound: "le_nat bs < 256 ^ length bs"
proof (induction bs)
  case Nil
  then show ?case by simp
next
  case (Cons b bs)
  have "unat b < 256" using unsigned_less [of b, where ?'a = nat] by simp
  with Cons show ?case by simp
qed

lemma le_nat_le_bytes: "n < 256 ^ l \<Longrightarrow> le_nat (le_bytes l n) = n"
proof (induction l arbitrary: n)
  case 0
  then show ?case by simp
next
  case (Suc l)
  have "n div 256 < 256 ^ l" using Suc.prems by (simp add: less_mult_imp_div_less mult.commute)
  then have "le_nat (le_bytes l (n div 256)) = n div 256" by (rule Suc.IH)
  moreover have "unat (of_nat (n mod 256) :: byte) = n mod 256"
    by (simp add: unat_of_nat take_bit_eq_mod)
  ultimately show ?case by simp
qed

lemma length_bslice [simp]: "length (bslice xs a b) = min (b - a) (length xs - a)"
  by (simp add: bslice_def)

lemma bslice_append_right:
  "bslice (xs @ ys) (length xs + a) (length xs + b) = bslice ys a b"
  by (simp add: bslice_def)

lemma bslice_append_left:
  "b \<le> length xs \<Longrightarrow> bslice (xs @ ys) a b = bslice xs a b"
  by (simp add: bslice_def)

lemma bslice_whole: "bslice xs 0 (length xs) = xs"
  by (simp add: bslice_def)

lemma bslice_prefix: "bslice (xs @ ys) 0 (length xs) = xs"
  by (simp add: bslice_def)

lemma length_patch [simp]:
  "a + length ys \<le> length xs \<Longrightarrow> length (patch xs a ys) = length xs"
  by (simp add: patch_def)

lemma bslice_patch_same:
  "a + length ys \<le> length xs \<Longrightarrow> bslice (patch xs a ys) a (a + length ys) = ys"
  by (simp add: bslice_def patch_def)

lemma nth_patch:
  "a + length ys \<le> length xs \<Longrightarrow> i < length xs \<Longrightarrow>
     patch xs a ys ! i = (if a \<le> i \<and> i < a + length ys then ys ! (i - a) else xs ! i)"
  by (auto simp: patch_def nth_append)

lemma bslice_eqI:
  assumes "length xs = length ys"
    and "\<And>i. a \<le> i \<Longrightarrow> i < b \<Longrightarrow> i < length xs \<Longrightarrow> xs ! i = ys ! i"
  shows "bslice xs a b = bslice ys a b"
proof (rule nth_equalityI)
  show "length (bslice xs a b) = length (bslice ys a b)" using assms(1) by simp
next
  fix i assume "i < length (bslice xs a b)"
  then have "i < b - a" "a + i < length xs" by auto
  then show "bslice xs a b ! i = bslice ys a b ! i"
    using assms by (simp add: bslice_def)
qed

lemma bslice_patch_outside:
  assumes "a + length ys \<le> length xs" and "d \<le> a \<or> a + length ys \<le> c"
  shows "bslice (patch xs a ys) c d = bslice xs c d"
proof (rule bslice_eqI)
  show "length (patch xs a ys) = length xs" using assms(1) by simp
next
  fix i assume "c \<le> i" "i < d" "i < length (patch xs a ys)"
  then show "patch xs a ys ! i = xs ! i"
    using assms by (auto simp: nth_patch)
qed

section \<open>Bloom filter: adding and testing\<close>

lemma mask_nonzero: "((w::byte) OR push_bit (n mod 8) 1) AND push_bit (n mod 8) 1 \<noteq> 0"
  by simp

lemma mask_keep:
  "(w::byte) AND y \<noteq> 0 \<Longrightarrow> (w OR x) AND y \<noteq> 0"
  by (auto simp: bit_eq_iff bit_and_iff bit_or_iff)

lemma contains_bits_true:
  "in_range h1 h2 is b \<Longrightarrow>
   list_all (\<lambda>i. bit_set b ((h1 + i * h2) mod bloom_m b)) is \<Longrightarrow>
   contains_bits h1 h2 is b = Inr True"
  by (induction "is") (auto simp: in_range_def bit_set_def)

lemma contains_bits_no_error:
  "in_range h1 h2 is b \<Longrightarrow> \<exists>r. contains_bits h1 h2 is b = Inr r"
  by (induction "is") (auto simp: in_range_def)

lemma bit_set_update:
  assumes "bit_set b p" and "j < length (bloom_bits b)"
  shows "bit_set (b\<lparr>bloom_bits := (bloom_bits b)[j := (bloom_bits b ! j) OR x]\<rparr>) p"
  using assms by (cases "j = p div 8") (auto simp: bit_set_def mask_keep)

lemma bit_set_new:
  assumes "p div 8 < length (bloom_bits b)"
  shows "bit_set (b\<lparr>bloom_bits := (bloom_bits b)[p div 8 := (bloom_bits b ! (p div 8)) OR push_bit (p mod 8) 1]\<rparr>) p"
  using assms by (simp add: bit_set_def)

lemma add_bits_in_range:
  "in_range h1 h2 is b \<Longrightarrow>
   \<exists>b'. add_bits h1 h2 is b = Inr b' \<and> bloom_m b' = bloom_m b \<and> bloom_k b' = bloom_k b
      \<and> length (bloom_bits b') = length (bloom_bits b)
      \<and> (\<forall>p. bit_set b p \<longrightarrow> bit_set b' p)
      \<and> list_all (\<lambda>i. bit_set b' ((h1 + i * h2) mod bloom_m b)) is"
proof (induction "is" arbitrary: b)
  case Nil
  then show ?case by simp
next
  case (Cons i "is")
  let ?p = "(h1 + i * h2) mod bloom_m b"
  let ?b1 = "b\<lparr>bloom_bits := (bloom_bits b)[?p div 8 := (bloom_bits b ! (?p div 8)) OR push_bit (?p mod 8) 1]\<rparr>"
  from Cons.prems have m: "0 < bloom_m b" and p: "?p div 8 < length (bloom_bits b)"
    and rest: "list_all (\<lambda>i. ((h1 + i * h2) mod bloom_m b) div 8 < length (bloom_bits b)) is"
    by (auto simp: in_range_def)
  have step: "add_bits h1 h2 (i # is) b = add_bits h1 h2 is ?b1"
    using m p by (simp add: Let_def)
  have "in_range h1 h2 is ?b1" using m rest by (simp add: in_range_def)
  from Cons.IH [OF this] obtain b' where b': "add_bits h1 h2 is ?b1 = Inr b'"
    "bloom_m b' = bloom_m b" "bloom_k b' = bloom_k b"
    "length (bloom_bits b') = length (bloom_bits b)"
    "\<forall>q. bit_set ?b1 q \<longrightarrow> bit_set b' q"
    "list_all (\<lambda>i. bit_set b' ((h1 + i * h2) mod bloom_m b)) is"
    by auto
  have "bit_set ?b1 ?p" using p by (rule bit_set_new)
  then have "bit_set b' ?p" using b'(5) by blast
  moreover have "\<forall>q. bit_set b q \<longrightarrow> bit_set b' q"
    using b'(5) bit_set_update [OF _ p] by blast
  ultimately show ?case using step b' by simp
qed

lemma covers_in_range: "covers b \<Longrightarrow> in_range h1 h2 is b"
proof -
  assume c: "covers b"
  have "((h1 + i * h2) mod bloom_m b) div 8 < length (bloom_bits b)" for i
  proof -
    have "(h1 + i * h2) mod bloom_m b < bloom_m b"
      using c by (simp add: covers_def)
    then have "(h1 + i * h2) mod bloom_m b < 8 * length (bloom_bits b)"
      using c by (simp add: covers_def)
    then show ?thesis by (simp add: less_mult_imp_div_less mult.commute)
  qed
  then show ?thesis using c by (simp add: in_range_def covers_def list_all_iff)
qed

lemma add_bits_covers:
  assumes "covers b" and "add_bits h1 h2 is b = Inr b'"
  shows "covers b' \<and> bloom_m b' = bloom_m b \<and> bloom_k b' = bloom_k b"
  using add_bits_in_range [OF covers_in_range [OF assms(1)], of h1 h2 "is"] assms
  by (auto simp: covers_def)

lemma add_bits_post:
  "add_bits h1 h2 is b = Inr b' \<Longrightarrow>
   bloom_k b' = bloom_k b \<and> (is \<noteq> [] \<longrightarrow> 0 < bloom_m b') \<and>
   (covers b' \<and> bloom_m b' = 8 * length (bloom_bits b') \<or>
    bloom_m b' = bloom_m b \<and> length (bloom_bits b') = length (bloom_bits b) \<and>
    list_all (\<lambda>i. ((h1 + i * h2) mod bloom_m b) div 8 < length (bloom_bits b)) is)"
proof (induction "is" arbitrary: b)
  case Nil
  then show ?case by simp
next
  case (Cons i "is")
  let ?p = "(h1 + i * h2) mod bloom_m b"
  from Cons.prems have m: "0 < bloom_m b" by (auto split: if_splits)
  show ?case
  proof (cases "length (bloom_bits b) \<le> ?p div 8")
    case True
    let ?b1 = "b\<lparr>bloom_bits := bloom_bits b @ replicate (?p div 8 + 1 - length (bloom_bits b)) 0,
                  bloom_m := (?p div 8 + 1) * 8\<rparr>"
    let ?b2 = "?b1\<lparr>bloom_bits := (bloom_bits ?b1)[?p div 8 := (bloom_bits ?b1 ! (?p div 8)) OR push_bit (?p mod 8) 1]\<rparr>"
    have run: "add_bits h1 h2 is ?b2 = Inr b'"
      using Cons.prems m True by (simp add: Let_def)
    have c2: "covers ?b2" and m2: "bloom_m ?b2 = 8 * length (bloom_bits ?b2)"
      using True by (simp_all add: covers_def)
    from add_bits_covers [OF c2 run] m2
      add_bits_in_range [OF covers_in_range [OF c2], of h1 h2 "is"] run
    have "covers b'" "bloom_m b' = 8 * length (bloom_bits b')" "bloom_k b' = bloom_k b"
      by auto
    then show ?thesis by (simp add: covers_def)
  next
    case False
    let ?b2 = "b\<lparr>bloom_bits := (bloom_bits b)[?p div 8 := (bloom_bits b ! (?p div 8)) OR push_bit (?p mod 8) 1]\<rparr>"
    have run: "add_bits h1 h2 is ?b2 = Inr b'"
      using Cons.prems m False by (simp add: Let_def)
    from Cons.IH [OF run] False m show ?thesis
      by (auto simp: covers_def)
  qed
qed

lemma add_bits_then_in_range:
  assumes "add_bits h1 h2 is b = Inr b'"
  shows "in_range h1 h2 is b'"
proof -
  from add_bits_post [OF assms] consider
    (grown) "covers b'"
    | (same) "is \<noteq> [] \<longrightarrow> 0 < bloom_m b'" "bloom_m b' = bloom_m b"
        "length (bloom_bits b') = length (bloom_bits b)"
        "list_all (\<lambda>i. ((h1 + i * h2) mod bloom_m b) div 8 < length (bloom_bits b)) is"
    by blast
  then show ?thesis
  proof cases
    case grown
    then show ?thesis by (rule covers_in_range)
  next
    case same
    then show ?thesis by (auto simp: in_range_def)
  qed
qed

lemma bloom_k_add: "Bloom_add b key = Inr b' \<Longrightarrow> bloom_k b' = bloom_k b"
  using add_bits_post by (auto simp: Bloom_add_def)

lemma Bloom_contains_after_add:
  "Bloom_add b key = Inr b' \<Longrightarrow> \<exists>r. Bloom_contains b' key = Inr r"
  using add_bits_then_in_range [of "fst (hash_pair key)" "snd (hash_pair key)" "[0..<bloom_k b]" b b']
    contains_bits_no_error bloom_k_add [of b key b']
  by (simp add: Bloom_add_def Bloom_contains_def)

lemma Bloom_add_twice:
  assumes "Bloom_add b key = Inr b1" and "Bloom_add b1 key = Inr b2"
  shows "Bloom_contains b2 key = Inr True"
proof -
  let ?h1 = "fst (hash_pair key)" and ?h2 = "snd (hash_pair key)"
  have k1: "bloom_k b1 = bloom_k b" using assms(1) by (rule bloom_k_add)
  have r1: "in_range ?h1 ?h2 [0..<bloom_k b1] b1"
    using add_bits_then_in_range [of ?h1 ?h2 "[0..<bloom_k b]" b b1] assms(1) k1
    by (simp add: Bloom_add_def)
  from add_bits_in_range [OF r1] assms(2) have
    same: "bloom_m b2 = bloom_m b1" "bloom_k b2 = bloom_k b1"
      "length (bloom_bits b2) = length (bloom_bits b1)"
    and set: "list_all (\<lambda>i. bit_set b2 ((?h1 + i * ?h2) mod bloom_m b1)) [0..<bloom_k b1]"
    by (auto simp: Bloom_add_def)
  have "in_range ?h1 ?h2 [0..<bloom_k b2] b2"
    using r1 same by (simp add: in_range_def)
  then show ?thesis using set same
    by (simp add: Bloom_contains_def contains_bits_true)
qed

lemma Bloom_add_covers:
  assumes "covers b" and "Bloom_add b key = Inr b'"
  shows "covers b' \<and> bloom_m b' = bloom_m b \<and> Bloom_contains b' key = Inr True"
proof -
  let ?h1 = "fst (hash_pair key)" and ?h2 = "snd (hash_pair key)"
  have r: "in_range ?h1 ?h2 [0..<bloom_k b] b" using assms(1) by (rule covers_in_range)
  from add_bits_in_range [OF r] assms(2) have
    same: "bloom_m b' = bloom_m b" "bloom_k b' = bloom_k b"
      "length (bloom_bits b') = length (bloom_bits b)"
    and set: "list_all (\<lambda>i. bit_set b' ((?h1 + i * ?h2) mod bloom_m b)) [0..<bloom_k b]"
    by (auto simp: Bloom_add_def)
  have "in_range ?h1 ?h2 [0..<bloom_k b'] b'" using r same by (simp add: in_range_def)
  then show ?thesis using set same assms(1)
    by (simp add: Bloom_contains_def contains_bits_true covers_def)
qed

section \<open>The effect of \<^verbatim>\<open>put\<close>\<close>

lemma add_bits_ok:
  "is = [] \<or> 0 < bloom_m b \<Longrightarrow> \<exists>b'. add_bits h1 h2 is b = Inr b'"
proof (induction "is" arbitrary: b)
  case Nil
  then show ?case by simp
next
  case (Cons i "is")
  then have m: "0 < bloom_m b" by simp
  show ?case using m by (auto simp: Let_def intro!: Cons.IH)
qed

lemma Bloom_add_ok:
  "bloom_k b = 0 \<or> 0 < bloom_m b \<Longrightarrow> \<exists>b'. Bloom_add b key = Inr b'"
  unfolding Bloom_add_def by (rule add_bits_ok) auto

lemma length_blake2b: "length (blake2b data n) \<le> n"
  by (simp add: blake2b_def)

lemma key_hash_bound: "key_hash key < 2 ^ 64"
proof -
  have "le_nat (blake2b key 8) < 256 ^ length (blake2b key 8)" by (rule le_nat_bound)
  also have "\<dots> \<le> (256::nat) ^ 8" by (rule power_increasing) (simp_all add: length_blake2b)
  finally show ?thesis by (simp add: key_hash_def)
qed

lemma put_Inr:
  assumes "fst (put st key v) = Inr ()"
  obtains val b' where "length key = key_size st" "encode_value v = Inr val"
    "0 < segments st"
    "bucket_offset (segment_of st (key_hash key)) + 8 \<le> length (mm st)"
    "length val < 2 ^ 32" "length (mm st) < 2 ^ 64"
    "Bloom_add (bloom st) key = Inr b'"
    "snd (put st key v) = st\<lparr>mm := put_mm st key val, bloom := b', header_dirty := True\<rparr>"
    "length (mm st) + 20 + length key + length val < 2 ^ 63"
  using assms
  by (auto simp: put_def Let_def put_mm_def entry_bytes_def not_le not_less
      split: if_splits sum.splits)

lemma put_succeeds:
  assumes "usable st" and "length key = key_size st" and "encode_value v = Inr val"
    and "length val < 2 ^ 32"
  shows "fst (put st key v) = Inr ()"
proof -
  have seg: "segment_of st (key_hash key) < segments st"
    using assms(1) by (simp add: usable_def segment_of_def)
  then have slot: "bucket_offset (segment_of st (key_hash key)) + 8 \<le> length (mm st)"
    using assms(1) by (simp add: usable_def bucket_offset_def)
  obtain b' where "Bloom_add (bloom st) key = Inr b'"
    using Bloom_add_ok assms(1) by (auto simp: usable_def)
  moreover have "length (mm st) + (20 + (length key + length val)) < 2 ^ 63"
    using assms by (simp add: usable_def)
  ultimately show ?thesis using assms slot
    by (simp add: put_def Let_def usable_def not_le not_less)
qed

lemma bslice_append_tail:
  "length xs \<le> c \<Longrightarrow> bslice (xs @ ys) c d = bslice ys (c - length xs) (d - length xs)"
  by (simp add: bslice_def)

lemma length_entry_bytes [simp]:
  "length (entry_bytes st key val) = 20 + length key + length val"
  by (simp add: entry_bytes_def)

lemma length_put_mm:
  "bucket_offset (segment_of st (key_hash key)) + 8 \<le> length (mm st) \<Longrightarrow>
   length (put_mm st key val) = length (mm st) + 20 + length key + length val"
  by (simp add: put_mm_def)

lemma put_mm_head:
  assumes "bucket_offset (segment_of st (key_hash key)) + 8 \<le> length (mm st)"
    and "length (mm st) < 2 ^ 64"
  shows "le_nat (bslice (put_mm st key val) (bucket_offset (segment_of st (key_hash key)))
           (bucket_offset (segment_of st (key_hash key)) + 8)) = length (mm st)"
proof -
  let ?off = "bucket_offset (segment_of st (key_hash key))"
  have "bslice (put_mm st key val) ?off (?off + length (le_bytes 8 (length (mm st))))
        = le_bytes 8 (length (mm st))"
    unfolding put_mm_def by (rule bslice_patch_same) (use assms(1) in simp)
  then show ?thesis using assms(2) by (simp add: le_nat_le_bytes)
qed

lemma put_mm_tail:
  assumes "bucket_offset (segment_of st (key_hash key)) + 8 \<le> length (mm st)"
    and "length (mm st) \<le> c"
  shows "bslice (put_mm st key val) c d
         = bslice (entry_bytes st key val) (c - length (mm st)) (d - length (mm st))"
proof -
  have "bslice (put_mm st key val) c d = bslice (mm st @ entry_bytes st key val) c d"
    unfolding put_mm_def by (rule bslice_patch_outside) (use assms in simp_all)
  then show ?thesis using assms(2) by (simp add: bslice_append_tail)
qed

lemma chain_walk_new_entry:
  assumes slot: "bucket_offset (segment_of st (key_hash key)) + 8 \<le> length (mm st)"
    and ks: "length key = ks" and vs: "length val < 2 ^ 32"
    and small: "length (mm st) < 2 ^ 63"
  shows "chain_walk (put_mm st key val) ks (key_hash key) key (length (mm st))
         = Some (Inr (Some val))"
proof -
  let ?e = "length (mm st)"
  have pos: "mm st \<noteq> []" using slot by auto
  have len: "\<not> length (put_mm st key val) < ?e + 20"
    using slot by (simp add: length_put_mm)
  have sl: "bslice (put_mm st key val) (?e + a) (?e + b) = bslice (entry_bytes st key val) a b"
    for a b using put_mm_tail [OF slot, of "?e + a" val "?e + b"] by simp
  have parts: "bslice (entry_bytes st key val) 8 16 = le_bytes 8 (key_hash key)"
    "bslice (entry_bytes st key val) 16 20 = le_bytes 4 (length val)"
    "bslice (entry_bytes st key val) 20 (20 + ks) = key"
    "bslice (entry_bytes st key val) (20 + ks) (20 + ks + length val) = val"
    using ks by (simp_all add: bslice_def entry_bytes_def)
  have h: "entry_hash (put_mm st key val) ?e = key_hash key"
    using key_hash_bound [of key] sl [of 8 16]
    by (simp add: entry_hash_def parts le_nat_le_bytes)
  have k: "bslice (put_mm st key val) (?e + 20) (?e + 20 + ks) = key"
    using sl [of 20 "20 + ks"] parts(3) by (simp add: add.assoc)
  have s: "entry_val_sz (put_mm st key val) ?e = length val"
    using vs sl [of 16 20] by (simp add: entry_val_sz_def parts le_nat_le_bytes)
  have v: "bslice (put_mm st key val) (?e + 20 + ks) (?e + 20 + ks + length val) = val"
    using sl [of "20 + ks" "20 + ks + length val"] parts(4) by (simp add: add.assoc)
  show ?thesis
    using small by (subst chain_walk.simps) (simp add: pos len h k s v)
qed

lemma get_after_put:
  assumes ok: "fst (put st key v) = Inr ()" and enc: "encode_value v = Inr val"
  shows "get (snd (put st key v)) key =
     (case Bloom_contains (bloom (snd (put st key v))) key of
        Inl e \<Rightarrow> Some (Inl e, snd (put st key v))
      | Inr False \<Rightarrow> Some (Inr None, snd (put st key v))
      | Inr True \<Rightarrow> Some (Inr (Some val), snd (put st key v)))"
proof -
  from ok obtain val' b' where f: "length key = key_size st" "encode_value v = Inr val'"
    "0 < segments st"
    "bucket_offset (segment_of st (key_hash key)) + 8 \<le> length (mm st)"
    "length val' < 2 ^ 32" "length (mm st) < 2 ^ 64"
    "Bloom_add (bloom st) key = Inr b'"
    "snd (put st key v) = st\<lparr>mm := put_mm st key val', bloom := b', header_dirty := True\<rparr>"
    "length (mm st) + 20 + length key + length val' < 2 ^ 63"
    by (rule put_Inr)
  from f(2) enc have [simp]: "val' = val" by simp
  from f(9) have small: "length (mm st) < 2 ^ 63" by simp
  let ?st = "snd (put st key v)"
  have seg: "segment_of ?st (key_hash key) = segment_of st (key_hash key)"
    by (simp add: f(8) segment_of_def)
  have walk: "chain_walk (mm ?st) (key_size ?st) (key_hash key) key
      (le_nat (bslice (mm ?st) (bucket_offset (segment_of ?st (key_hash key)))
         (bucket_offset (segment_of ?st (key_hash key)) + 8))) = Some (Inr (Some val))"
    unfolding seg using chain_walk_new_entry [OF f(4) f(1) _ small] f(5) put_mm_head [OF f(4) f(6)]
    by (simp add: f(8))
  have "\<not> length (mm ?st) < bucket_offset (segment_of ?st (key_hash key)) + 8"
    unfolding seg using f(4) by (simp add: f(8) length_put_mm)
  moreover have "segments ?st \<noteq> 0" using f(3) by (simp add: f(8))
  ultimately show ?thesis using walk
    by (simp add: get_def split: sum.splits bool.splits)
qed

section \<open>Creation, usability and the failures of \<^verbatim>\<open>put\<close>\<close>

lemma le_bytes_2: "le_bytes 2 n = [of_nat (n mod 256), of_nat (n div 256 mod 256)]"
proof -
  have e: "(2::nat) = Suc (Suc 0)" by simp
  show ?thesis unfolding e by simp
qed

lemma le_bytes_4:
  "le_bytes 4 n = [of_nat (n mod 256), of_nat (n div 256 mod 256),
     of_nat (n div 256 div 256 mod 256), of_nat (n div 256 div 256 div 256 mod 256)]"
proof -
  have e: "(4::nat) = Suc (Suc (Suc (Suc 0)))" by simp
  show ?thesis unfolding e by simp
qed

lemma le_bytes_8:
  "le_bytes 8 n = [of_nat (n mod 256), of_nat (n div 256 mod 256),
     of_nat (n div 256 div 256 mod 256), of_nat (n div 256 div 256 div 256 mod 256),
     of_nat (n div 256 div 256 div 256 div 256 mod 256),
     of_nat (n div 256 div 256 div 256 div 256 div 256 mod 256),
     of_nat (n div 256 div 256 div 256 div 256 div 256 div 256 mod 256),
     of_nat (n div 256 div 256 div 256 div 256 div 256 div 256 div 256 mod 256)]"
proof -
  have e: "(8::nat) = Suc (Suc (Suc (Suc (Suc (Suc (Suc (Suc 0)))))))" by simp
  show ?thesis unfolding e by simp
qed

lemma replicate_small:
  "replicate 1 x = [x]" "replicate 2 x = [x, x]" "replicate 4 x = [x, x, x, x]"
proof -
  have e: "(2::nat) = Suc (Suc 0)" "(4::nat) = Suc (Suc (Suc (Suc 0)))" by simp_all
  show "replicate 1 x = [x]" by simp
  show "replicate 2 x = [x, x]" unfolding e by simp
  show "replicate 4 x = [x, x, x, x]" unfolding e by simp
qed

lemma create_demo_store: "create_new 8 256 (10, 7) = Inr demo_store"
  by (simp add: create_new_def pack_header_def MAGIC_def demo_store_def Bloom_init_def
      le_bytes_2 le_bytes_4 le_bytes_8 replicate_small)

lemma usable_demo_store: "usable demo_store"
  by (simp add: usable_def demo_store_def)

lemma put_fields:
  assumes "fst (put st key v) = Inr ()" and "encode_value v = Inr val"
  shows "key_size (snd (put st key v)) = key_size st"
    and "segments (snd (put st key v)) = segments st"
    and "length (mm (snd (put st key v))) = length (mm st) + 20 + length key + length val"
    and "bloom_k (bloom (snd (put st key v))) = 0 \<or> 0 < bloom_m (bloom (snd (put st key v)))"
proof -
  from assms(1) obtain val' b' where f: "encode_value v = Inr val'"
    "bucket_offset (segment_of st (key_hash key)) + 8 \<le> length (mm st)"
    "Bloom_add (bloom st) key = Inr b'"
    "snd (put st key v) = st\<lparr>mm := put_mm st key val', bloom := b', header_dirty := True\<rparr>"
    by (rule put_Inr)
  from f(1) assms(2) have [simp]: "val' = val" by simp
  show "key_size (snd (put st key v)) = key_size st" "segments (snd (put st key v)) = segments st"
    by (simp_all add: f(4))
  show "length (mm (snd (put st key v))) = length (mm st) + 20 + length key + length val"
    using f(2) by (simp add: f(4) length_put_mm)
  from add_bits_post [of "fst (hash_pair key)" "snd (hash_pair key)" "[0..<bloom_k (bloom st)]"
      "bloom st" b'] f(3)
  show "bloom_k (bloom (snd (put st key v))) = 0 \<or> 0 < bloom_m (bloom (snd (put st key v)))"
    by (auto simp: f(4) Bloom_add_def)
qed

lemma usable_put:
  assumes "usable st" and "fst (put st key v) = Inr ()" and "encode_value v = Inr val"
    and "length (mm st) + 40 + 2 * length key + length val + 2 ^ 32 \<le> 2 ^ 63"
  shows "usable (snd (put st key v))"
proof -
  have "length key = key_size st" using assms(2) by (auto elim: put_Inr)
  then show ?thesis using assms put_fields [OF assms(2,3)] by (simp add: usable_def)
qed

lemma utf8_encode_error: "utf8_encode cs = Inl e \<Longrightarrow> e = UnicodeEncodeError"
  by (induction cs) (auto simp: utf8_char_def split: if_splits sum.splits)

lemma add_bits_error: "add_bits h1 h2 is b = Inl e \<Longrightarrow> e = ZeroDivisionError"
  by (induction "is" arbitrary: b) (auto simp: Let_def split: if_splits)

lemma encode_value_error: "encode_value v = Inl e \<Longrightarrow> e = UnicodeEncodeError"
  by (cases v) (auto simp: encode_value_def dest: utf8_encode_error)

lemma Bloom_add_error: "Bloom_add b key = Inl e \<Longrightarrow> e = ZeroDivisionError"
  unfolding Bloom_add_def by (rule add_bits_error)

lemma put_mismatch_iff:
  "fst (put st key v) = Inl (ValueError ''Key length mismatch'') \<longleftrightarrow> length key \<noteq> key_size st"
proof (cases "length key = key_size st")
  case False
  then show ?thesis by (simp add: put_def)
next
  case len: True
  have "fst (put st key v) \<noteq> Inl (ValueError ''Key length mismatch'')"
  proof (cases "encode_value v")
    case (Inl e)
    then show ?thesis using encode_value_error [OF Inl] len by (simp add: put_def)
  next
    case val: (Inr val)
    show ?thesis
    proof (cases "Bloom_add (bloom st) key")
      case (Inl e)
      then show ?thesis using Bloom_add_error [OF Inl] len val
        by (simp add: put_def Let_def)
    next
      case (Inr b)
      then show ?thesis using len val by (simp add: put_def Let_def)
    qed
  qed
  then show ?thesis using len by simp
qed

section \<open>Chains\<close>

lemma bslice_eqI2:
  assumes "b \<le> length xs" and "b \<le> length ys"
    and "\<And>i. a \<le> i \<Longrightarrow> i < b \<Longrightarrow> xs ! i = ys ! i"
  shows "bslice xs a b = bslice ys a b"
proof (rule nth_equalityI)
  show "length (bslice xs a b) = length (bslice ys a b)" using assms(1,2) by simp
next
  fix i assume "i < length (bslice xs a b)"
  then have "i < b - a" "a + i < length xs" by auto
  then show "bslice xs a b ! i = bslice ys a b ! i"
    using assms by (simp add: bslice_def)
qed

lemma chain_walk_stops:
  "e \<noteq> 0 \<Longrightarrow> e < 2 ^ 63 \<Longrightarrow> length f < e + 20 \<Longrightarrow>
   chain_walk f ks h key e = Some (Inl StructError)"
  by (subst chain_walk.simps) simp

lemma chain_walk_overflow:
  "2 ^ 63 \<le> e \<Longrightarrow> chain_walk f ks h key e = Some (Inl OverflowError)"
  by (subst chain_walk.simps) simp

lemma chain_walk_terminates:
  "chain_ok f lo e \<Longrightarrow> length f < 2 ^ 63 \<Longrightarrow> \<exists>r. chain_walk f ks h key e = Some (Inr r)"
proof (induction f lo e rule: chain_ok.induct)
  case (1 f lo e)
  show ?case
  proof (cases "e = 0")
    case True
    then show ?thesis by (subst chain_walk.simps) simp
  next
    case False
    with "1.prems"(1) have b: "lo \<le> e \<and> e + 20 \<le> length f \<and> entry_next f e < e"
      and n: "chain_ok f lo (entry_next f e)"
      by (subst (asm) chain_ok.simps, simp split: if_splits)+
    from "1.IH" [OF False b n "1.prems"(2)] obtain r where
      "chain_walk f ks h key (entry_next f e) = Some (Inr r)" by blast
    then show ?thesis using False b "1.prems"(2) by (subst chain_walk.simps) auto
  qed
qed

lemma chain_ok_unfold:
  "chain_ok f lo e \<longleftrightarrow>
     e = 0 \<or> lo \<le> e \<and> e + 20 \<le> length f \<and> entry_next f e < e \<and> chain_ok f lo (entry_next f e)"
  by (subst chain_ok.simps) auto

lemma chain_ok_frame:
  assumes len: "length f \<le> length f'"
    and agree: "\<And>i. lo \<le> i \<Longrightarrow> i < length f \<Longrightarrow> f' ! i = f ! i"
  shows "chain_ok f lo e \<Longrightarrow> chain_ok f' lo e"
proof (induction e rule: less_induct)
  case (less e)
  show ?case
  proof (cases "e = 0")
    case True
    then show ?thesis using chain_ok_unfold [of f' lo e] by blast
  next
    case False
    with less.prems have b: "lo \<le> e" "e + 20 \<le> length f" "entry_next f e < e"
      and n: "chain_ok f lo (entry_next f e)"
      using chain_ok_unfold [of f lo e] by auto
    have "bslice f' e (e + 8) = bslice f e (e + 8)"
      by (rule bslice_eqI2) (use b len agree in auto)
    then have nx: "entry_next f' e = entry_next f e" by (simp add: entry_next_def)
    have "chain_ok f' lo (entry_next f e)" using less.IH [OF b(3) n] .
    then show ?thesis using b len nx chain_ok_unfold [of f' lo e] by auto
  qed
qed

lemma chain_ok_bound: "chain_ok f lo e \<Longrightarrow> e = 0 \<or> e + 20 \<le> length f"
  using chain_ok_unfold [of f lo e] by auto

lemma nth_put_mm:
  assumes slot: "bucket_offset (segment_of st (key_hash key)) + 8 \<le> length (mm st)"
    and i: "i < length (mm st)"
    and out: "i < bucket_offset (segment_of st (key_hash key))
              \<or> bucket_offset (segment_of st (key_hash key)) + 8 \<le> i"
  shows "put_mm st key val ! i = mm st ! i"
  using assms by (auto simp: put_mm_def nth_patch nth_append)

lemma bucket_head_put_other:
  assumes slot: "bucket_offset (segment_of st (key_hash key)) + 8 \<le> length (mm st)"
    and tab: "bucket_offset seg + 8 \<le> length (mm st)"
    and ne: "seg \<noteq> segment_of st (key_hash key)"
  shows "bucket_head (put_mm st key val) seg = bucket_head (mm st) seg"
proof -
  have "bslice (put_mm st key val) (bucket_offset seg) (bucket_offset seg + 8)
        = bslice (mm st) (bucket_offset seg) (bucket_offset seg + 8)"
  proof (rule bslice_eqI2)
    show "bucket_offset seg + 8 \<le> length (put_mm st key val)"
      using tab slot by (simp add: length_put_mm)
    show "bucket_offset seg + 8 \<le> length (mm st)" by (rule tab)
    fix i assume "bucket_offset seg \<le> i" "i < bucket_offset seg + 8"
    then show "put_mm st key val ! i = mm st ! i"
      using ne tab by (intro nth_put_mm [OF slot]) (auto simp: bucket_offset_def)
  qed
  then show ?thesis by (simp add: bucket_head_def)
qed

lemma entry_next_put:
  assumes slot: "bucket_offset (segment_of st (key_hash key)) + 8 \<le> length (mm st)"
  shows "entry_next (put_mm st key val) (length (mm st))
         = bucket_head (mm st) (segment_of st (key_hash key))"
proof -
  let ?off = "bucket_offset (segment_of st (key_hash key))"
  have "bslice (put_mm st key val) (length (mm st) + 0) (length (mm st) + 8)
        = bslice (entry_bytes st key val) 0 8"
    using put_mm_tail [OF slot, of "length (mm st) + 0" val "length (mm st) + 8"] by simp
  also have "\<dots> = le_bytes 8 (le_nat (bslice (mm st) ?off (?off + 8)))"
    by (simp add: bslice_def entry_bytes_def)
  finally have "entry_next (put_mm st key val) (length (mm st))
                = le_nat (le_bytes 8 (le_nat (bslice (mm st) ?off (?off + 8))))"
    by (simp add: entry_next_def)
  moreover have "le_nat (bslice (mm st) ?off (?off + 8)) < 256 ^ 8"
    using le_nat_bound [of "bslice (mm st) ?off (?off + 8)"] slot by simp
  ultimately show ?thesis by (simp add: le_nat_le_bytes bucket_head_def)
qed

lemma chains_ok_put:
  assumes inv: "chains_ok st" and ok: "fst (put st key v) = Inr ()"
  shows "chains_ok (snd (put st key v))"
    and "bucket_head (mm (snd (put st key v))) (segment_of st (key_hash key)) = length (mm st)"
    and "entry_next (mm (snd (put st key v))) (length (mm st))
         = bucket_head (mm st) (segment_of st (key_hash key))"
    and "bucket_head (mm st) (segment_of st (key_hash key)) < length (mm st)"
proof -
  let ?k = "segment_of st (key_hash key)"
  let ?lo = "24 + 8 * segments st"
  from ok obtain val b' where f: "0 < segments st"
    "bucket_offset ?k + 8 \<le> length (mm st)" "length (mm st) < 2 ^ 64"
    "snd (put st key v) = st\<lparr>mm := put_mm st key val, bloom := b', header_dirty := True\<rparr>"
    by (rule put_Inr)
  let ?f' = "put_mm st key val"
  have mm': "mm (snd (put st key v)) = ?f'" and segs: "segments (snd (put st key v)) = segments st"
    by (simp_all add: f(4))
  from inv have tab: "?lo \<le> length (mm st)"
    and ch: "\<And>seg. seg < segments st \<Longrightarrow> chain_ok (mm st) ?lo (bucket_head (mm st) seg)"
    by (simp_all add: chains_ok_def list_all_iff)
  have k: "?k < segments st" using f(1) by (simp add: segment_of_def)
  then have offk: "bucket_offset ?k + 8 \<le> ?lo" by (simp add: bucket_offset_def)
  have len: "length (mm st) \<le> length ?f'" using f(2) by (simp add: length_put_mm)
  have agree: "?f' ! i = mm st ! i" if "?lo \<le> i" "i < length (mm st)" for i
    using that offk by (intro nth_put_mm [OF f(2)]) auto
  have frame: "chain_ok ?f' ?lo e" if "chain_ok (mm st) ?lo e" for e
    using chain_ok_frame [OF len agree that] by simp
  have head: "bucket_head ?f' ?k = length (mm st)"
    using put_mm_head [OF f(2,3)] by (simp add: bucket_head_def)
  have nxt: "entry_next ?f' (length (mm st)) = bucket_head (mm st) ?k"
    by (rule entry_next_put [OF f(2)])
  have old: "bucket_head (mm st) ?k < length (mm st)"
    using chain_ok_bound [OF ch [OF k]] f(2) by auto
  have new: "chain_ok ?f' ?lo (length (mm st))"
    using chain_ok_unfold [of ?f' ?lo "length (mm st)"] tab f(2) nxt old frame [OF ch [OF k]]
    by (simp add: length_put_mm)
  have "chain_ok ?f' ?lo (bucket_head ?f' seg)" if s: "seg < segments st" for seg
  proof (cases "seg = ?k")
    case True
    then show ?thesis using head new by simp
  next
    case False
    have "bucket_offset seg + 8 \<le> length (mm st)"
      using s tab by (simp add: bucket_offset_def)
    from bucket_head_put_other [OF f(2) this False] frame [OF ch [OF s]]
    show ?thesis by simp
  qed
  then show "chains_ok (snd (put st key v))"
    using tab len by (simp add: chains_ok_def list_all_iff mm' segs)
  show "bucket_head (mm (snd (put st key v))) ?k = length (mm st)"
    using head by (simp add: mm')
  show "entry_next (mm (snd (put st key v))) (length (mm st)) = bucket_head (mm st) ?k"
    using nxt by (simp add: mm')
  show "bucket_head (mm st) ?k < length (mm st)" by (rule old)
qed

lemma chains_ok_walk:
  assumes "chains_ok st" and "seg < segments st" and "length (mm st) < 2 ^ 63"
  shows "\<exists>r. chain_walk (mm st) ks h k (bucket_head (mm st) seg) = Some (Inr r)"
  using assms chain_walk_terminates [of "mm st" "24 + 8 * segments st" "bucket_head (mm st) seg"]
  by (simp add: chains_ok_def list_all_iff)

lemma le_nat_zeros: "(\<And>x. x \<in> set bs \<Longrightarrow> x = 0) \<Longrightarrow> le_nat bs = 0"
proof (induction bs)
  case Nil
  then show ?case by simp
next
  case (Cons b bs)
  have "b = 0" using Cons.prems [of b] by simp
  moreover have "le_nat bs = 0" using Cons.prems by (intro Cons.IH) simp
  ultimately show ?case by simp
qed

lemma bucket_head_empty:
  assumes "bucket_offset seg + 8 \<le> length f"
    and "\<And>i. bucket_offset seg \<le> i \<Longrightarrow> i < bucket_offset seg + 8 \<Longrightarrow> f ! i = 0"
  shows "bucket_head f seg = 0"
proof -
  have "x = 0" if "x \<in> set (bslice f (bucket_offset seg) (bucket_offset seg + 8))" for x
  proof -
    from that obtain j where j: "j < length (bslice f (bucket_offset seg) (bucket_offset seg + 8))"
      "x = bslice f (bucket_offset seg) (bucket_offset seg + 8) ! j"
      by (auto simp: in_set_conv_nth)
    then have "j < 8" by simp
    then have "x = f ! (bucket_offset seg + j)" using j(2) assms(1) by (simp add: bslice_def)
    then show ?thesis using assms(2) [of "bucket_offset seg + j"] \<open>j < 8\<close> by simp
  qed
  then show ?thesis unfolding bucket_head_def by (rule le_nat_zeros)
qed

lemma chains_ok_demo_store: "chains_ok demo_store"
proof -
  have "bucket_head (mm demo_store) seg = 0" if "seg < 256" for seg
  proof (rule bucket_head_empty)
    show "bucket_offset seg + 8 \<le> length (mm demo_store)"
      using that by (simp add: demo_store_def bucket_offset_def)
    fix i assume "bucket_offset seg \<le> i" "i < bucket_offset seg + 8"
    then have "24 \<le> i" "i < 2072" using that by (simp_all add: bucket_offset_def)
    then show "mm demo_store ! i = 0"
      by (simp add: demo_store_def nth_append nth_Cons')
  qed
  then show ?thesis
    using chain_ok_unfold [of "mm demo_store" "24 + 8 * segments demo_store" 0]
    by (simp add: chains_ok_def list_all_iff demo_store_def)
qed

section \<open>Concrete files\<close>

lemma replicate_8: "replicate 8 x = [x, x, x, x, x, x, x, x]"
proof -
  have e: "(8::nat) = Suc (Suc (Suc (Suc (Suc (Suc (Suc (Suc 0)))))))" by simp
  show ?thesis unfolding e by simp
qed

lemma create_small_store: "create_new 8 1 (10, 7) = Inr small_store"
  by (simp add: create_new_def pack_header_def MAGIC_def small_store_def Bloom_init_def
      le_bytes_2 le_bytes_4 le_bytes_8 replicate_small replicate_8)



lemma open_corrupt_file: "open_existing corrupt_file 8 (10, 7) = Inr corrupt_store"
  by (simp add: open_existing_def corrupt_file_def corrupt_store_def bslice_def MAGIC_def
      Bloom_from_bytes_def Bloom_init_def Let_def)

lemma full_byte_mask: "(255::byte) AND push_bit (n mod 8) 1 \<noteq> 0"
proof -
  have e: "(255::byte) = - 1" by simp
  show ?thesis unfolding e by simp
qed

lemma Bloom_contains_full:
  assumes "covers b" and "\<And>x. x \<in> set (bloom_bits b) \<Longrightarrow> x = 255"
  shows "Bloom_contains b key = Inr True"
proof -
  let ?h1 = "fst (hash_pair key)" and ?h2 = "snd (hash_pair key)"
  have r: "in_range ?h1 ?h2 [0..<bloom_k b] b" using assms(1) by (rule covers_in_range)
  have "bit_set b ((?h1 + i * ?h2) mod bloom_m b)" if "i < bloom_k b" for i
  proof -
    let ?p = "(?h1 + i * ?h2) mod bloom_m b"
    from r that have p: "?p div 8 < length (bloom_bits b)"
      by (simp add: in_range_def list_all_iff)
    then have "bloom_bits b ! (?p div 8) = 255" by (intro assms(2)) simp
    then show ?thesis using p full_byte_mask by (simp add: bit_set_def)
  qed
  then have "list_all (\<lambda>i. bit_set b ((?h1 + i * ?h2) mod bloom_m b)) [0..<bloom_k b]"
    by (simp add: list_all_iff)
  with r show ?thesis by (simp add: Bloom_contains_def contains_bits_true)
qed

section \<open>Evaluation on concrete keys\<close>

lemma digest16_key_one:
  "blake2b key_one 16 = [177, 247, 136, 252, 21, 17, 52, 19, 242, 204, 174, 144, 96, 77, 52, 180]"
  by code_simp

lemma digest8_key_one: "blake2b key_one 8 = [81, 153, 195, 93, 40, 239, 218, 184]"
  by code_simp

lemma digest16_key_five:
  "blake2b key_five 16
   = [133, 149, 2, 47, 173, 5, 121, 213, 126, 21, 45, 86, 164, 195, 130, 253]"
  by code_simp

lemma hash_pair_key_one: "hash_pair key_one = (1383749771638405041, 12985088702755556594)"
  by (simp add: hash_pair_def digest16_key_one)

lemma hash_pair_key_five: "hash_pair key_five = (15382332243636819333, 18267378149156001150)"
  by (simp add: hash_pair_def digest16_key_five)

lemma key_hash_key_one: "key_hash key_one = 13320221804552493393"
  by (simp add: key_hash_def digest8_key_one)

lemma upt_7: "[0..<7] = [0, 1, 2, 3, 4, 5, 6]"
  by code_simp

lemma add_bits_step:
  "add_bits h1 h2 (i # is) \<lparr>bloom_m = m, bloom_k = k, bloom_bits = bs\<rparr> =
     (if m = 0 then Inl ZeroDivisionError
      else if length bs \<le> ((h1 + i * h2) mod m) div 8
      then add_bits h1 h2 is
             \<lparr>bloom_m = (((h1 + i * h2) mod m) div 8 + 1) * 8, bloom_k = k,
              bloom_bits = (bs @ replicate (((h1 + i * h2) mod m) div 8 + 1 - length bs) 0)
                [((h1 + i * h2) mod m) div 8 := push_bit (((h1 + i * h2) mod m) mod 8) 1]\<rparr>
      else add_bits h1 h2 is
             \<lparr>bloom_m = m, bloom_k = k,
              bloom_bits = bs[((h1 + i * h2) mod m) div 8 :=
                 (bs ! (((h1 + i * h2) mod m) div 8)) OR push_bit (((h1 + i * h2) mod m) mod 8) 1]\<rparr>)"
  by (simp add: Let_def nth_append)

lemma open_unflushed: "open_existing (mm demo_store) 8 (10, 7) = Inr unflushed_store"
  by (simp add: open_existing_def demo_store_def unflushed_store_def bslice_def MAGIC_def
      Bloom_from_bytes_def Bloom_init_def Let_def)

lemma usable_unflushed: "usable unflushed_store"
  by (simp add: usable_def unflushed_store_def demo_store_def)

lemma add_unflushed:
  "Bloom_add (bloom unflushed_store) key_one
   = Inr \<lparr>bloom_m = 16, bloom_k = 7, bloom_bits = [162, 42]\<rparr>"
  by (simp add: Bloom_add_def hash_pair_key_one unflushed_store_def upt_7 add_bits_step
      del: add_bits.simps(2))

lemma contains_grown:
  "Bloom_contains \<lparr>bloom_m = 16, bloom_k = 7, bloom_bits = [162, 42]\<rparr> key_one = Inr False"
  by (simp add: Bloom_contains_def hash_pair_key_one upt_7)

lemma flush_bloom: "bloom (snd (flush st)) = bloom st"
  by (simp add: flush_def Let_def split: sum.splits)

lemma flush_ok:
  assumes "key_size st < 2 ^ 16" and "segments st < 2 ^ 32"
    and "length (bloom_bits (bloom st)) < 2 ^ 64" and "20 \<le> length (mm st)"
  shows "fst (flush st) = Inr ()"
  using assms by (simp add: flush_def Let_def pack_header_def MAGIC_def patch_def)

lemma get_filter_false:
  "Bloom_contains (bloom st) key = Inr False \<Longrightarrow> get st key = Some (Inr None, st)"
  by (simp add: get_def)

lemma put_small_store: "put small_store key_one (Bytes val_hello) = (Inr (), small_store_put)"
  by (simp add: put_def small_store_def small_store_put_def key_one_def
      key_hash_key_one [unfolded key_one_def] hash_pair_key_one [unfolded key_one_def]
      Bloom_add_def upt_7 add_bits_step
      encode_value_def segment_of_def bucket_offset_def bslice_def patch_def
      le_bytes_4 le_bytes_8 val_hello_def Let_def
      del: add_bits.simps(2))

lemma flush_small_store_put: "flush small_store_put = (Inr (), small_store_flushed)"
  by (simp add: flush_def small_store_put_def small_store_flushed_def put_closed_file_def
      Let_def pack_header_def MAGIC_def patch_def le_bytes_2 le_bytes_4 le_bytes_8)

lemma close_small_store_put: "close small_store_put = Inr put_closed_file"
  by (simp add: close_def flush_small_store_put small_store_flushed_def)

lemma open_put_closed_file: "open_existing put_closed_file 8 (10, 7) = Inr put_reopened_store"
  by (simp add: open_existing_def put_closed_file_def put_reopened_store_def bslice_def MAGIC_def
      Bloom_from_bytes_def Bloom_init_def Let_def)

lemma contains_key_five:
  "Bloom_contains \<lparr>bloom_m = 10, bloom_k = 7, bloom_bits = [170, 2]\<rparr> key_five = Inr True"
  by (simp add: Bloom_contains_def hash_pair_key_five upt_7)

lemma walk_before_flush:
  "chain_walk (mm small_store_put) 8 h key_five 33 = Some (Inr None)"
  apply (subst chain_walk.simps)
  apply (simp add: small_store_put_def bslice_def key_five_def entry_next_def)
  apply (subst chain_walk.simps)
  apply simp
  done

lemma walk_after_flush:
  "chain_walk put_closed_file 8 h key_five 33 = Some (Inl StructError)"
  apply (subst chain_walk.simps)
  apply (simp add: put_closed_file_def bslice_def key_five_def entry_next_def)
  apply (subst chain_walk.simps)
  apply (simp add: bslice_def entry_next_def)
  apply (subst chain_walk.simps)
  apply simp
  done

lemma walk_reaches_same:
  "walk_reaches n f ks h key e e' \<Longrightarrow> chain_walk f ks h key e = chain_walk f ks h key e'"
proof (induction n arbitrary: e)
  case 0
  then show ?case by simp
next
  case (Suc n)
  show ?case
  proof (cases "e = e'")
    case True
    then show ?thesis by simp
  next
    case False
    with Suc.prems have c: "e \<noteq> 0" "e < 2 ^ 63" "e + 20 \<le> length f"
      "\<not> (entry_hash f e = h \<and> bslice f (e + 20) (e + 20 + ks) = key)"
      and r: "walk_reaches n f ks h key (entry_next f e) e'"
      by auto
    have "chain_walk f ks h key e = chain_walk f ks h key (entry_next f e)"
      using c by (subst chain_walk.simps) auto
    then show ?thesis using Suc.IH [OF r] by simp
  qed
qed

lemma get_walk:
  assumes "Bloom_contains (bloom st) key = Inr True" and "0 < segments st"
    and "bucket_offset (segment_of st (key_hash key)) + 8 \<le> length (mm st)"
  shows "get st key = map_option (\<lambda>r. (r, st))
      (chain_walk (mm st) (key_size st) (key_hash key) key
         (bucket_head (mm st) (segment_of st (key_hash key))))"
  using assms by (simp add: get_def bucket_head_def)

lemma get_single_segment:
  assumes "Bloom_contains (bloom st) key = Inr True" and "segments st = 1"
    and "32 \<le> length (mm st)"
    and "chain_walk (mm st) (key_size st) (key_hash key) key (bucket_head (mm st) 0) = Some r"
  shows "get st key = Some (r, st)"
proof -
  have s: "segment_of st (key_hash key) = 0" using assms(2) by (simp add: segment_of_def)
  have "get st key = map_option (\<lambda>r. (r, st))
      (chain_walk (mm st) (key_size st) (key_hash key) key
         (bucket_head (mm st) (segment_of st (key_hash key))))"
    by (rule get_walk) (use assms s in \<open>simp_all add: bucket_offset_def\<close>)
  then show ?thesis using assms(4) by (simp add: s)
qed

lemma get_small_store_put_five: "get small_store_put key_five = Some (Inr None, small_store_put)"
proof (rule get_single_segment)
  show "Bloom_contains (bloom small_store_put) key_five = Inr True"
    using contains_key_five by (simp add: small_store_put_def)
  show "segments small_store_put = 1" "32 \<le> length (mm small_store_put)"
    by (simp_all add: small_store_put_def)
  have "bucket_head (mm small_store_put) 0 = 33"
    by (simp add: bucket_head_def bucket_offset_def small_store_put_def bslice_def)
  moreover have "key_size small_store_put = 8" by (simp add: small_store_put_def)
  ultimately show "chain_walk (mm small_store_put) (key_size small_store_put) (key_hash key_five)
      key_five (bucket_head (mm small_store_put) 0) = Some (Inr None)"
    using walk_before_flush [of "key_hash key_five"] by simp
qed

lemma get_after_flush_five:
  assumes "mm st = put_closed_file" and "key_size st = 8" and "segments st = 1"
    and "bloom st = \<lparr>bloom_m = 10, bloom_k = 7, bloom_bits = [170, 2]\<rparr>"
  shows "get st key_five = Some (Inl StructError, st)"
proof (rule get_single_segment)
  show "Bloom_contains (bloom st) key_five = Inr True"
    using contains_key_five by (simp add: assms)
  show "segments st = 1" by (rule assms)
  show "32 \<le> length (mm st)" by (simp add: assms put_closed_file_def)
  have "bucket_head put_closed_file 0 = 33"
    by (simp add: bucket_head_def bucket_offset_def put_closed_file_def bslice_def)
  then show "chain_walk (mm st) (key_size st) (key_hash key_five) key_five
      (bucket_head (mm st) 0) = Some (Inl StructError)"
    using walk_after_flush [of "key_hash key_five"] by (simp add: assms)
qed

lemma chains_ok_small_store: "chains_ok small_store"
proof -
  have "bucket_head (mm small_store) 0 = 0"
    by (simp add: bucket_head_def bucket_offset_def small_store_def bslice_def)
  then show ?thesis
    using chain_ok_unfold [of "mm small_store" "24 + 8 * segments small_store" 0]
    by (simp add: chains_ok_def small_store_def)
qed

lemma chains_ok_small_store_put: "chains_ok small_store_put"
  using chains_ok_put(1) [OF chains_ok_small_store, of key_one "Bytes val_hello"]
  by (simp add: put_small_store)

lemma flushed_chain:
  "bucket_head (mm small_store_flushed) 0 = 33"
  "entry_next (mm small_store_flushed) 33 = 2"
  "entry_next (mm small_store_flushed) 2 = 281509336461651"
  by (simp_all add: bucket_head_def bucket_offset_def entry_next_def small_store_flushed_def
      put_closed_file_def bslice_def)

lemma not_chains_ok_flushed: "\<not> chains_ok small_store_flushed"
proof
  assume "chains_ok small_store_flushed"
  then have "chain_ok (mm small_store_flushed) 32 33"
    using flushed_chain(1) by (simp add: chains_ok_def small_store_flushed_def)
  then have "chain_ok (mm small_store_flushed) 32 2"
    using chain_ok_unfold [of "mm small_store_flushed" 32 33] flushed_chain(2) by simp
  then show False
    using chain_ok_unfold [of "mm small_store_flushed" 32 2] by simp
qed

section \<open>Claims about \<^verbatim>\<open>put\<close> and \<^verbatim>\<open>get\<close>\<close>

text \<open>
  C4 (LIFO shadowing). After \<open>put(k, v1)\<close> and then \<open>put(k, v2)\<close> on the same store,
  both successful, \<open>get(k)\<close> returns \<open>v2\<close> (the bytes of \<open>v2\<close> when it is a string):
  the second entry is the head of the chain of \<open>k\<close>, and after two additions of the same
  key the filter answers true for it, whatever the state of the store was before.
\<close>

theorem put_put_get_newest:
  assumes "fst (put st key v1) = Inr ()"
    and "fst (put (snd (put st key v1)) key v2) = Inr ()"
    and "encode_value v2 = Inr val2"
  shows "get (snd (put (snd (put st key v1)) key v2)) key
         = Some (Inr (Some val2), snd (put (snd (put st key v1)) key v2))"
proof -
  let ?s1 = "snd (put st key v1)"
  let ?s2 = "snd (put ?s1 key v2)"
  from assms(1) obtain val1 b1 where a1: "Bloom_add (bloom st) key = Inr b1"
    "?s1 = st\<lparr>mm := put_mm st key val1, bloom := b1, header_dirty := True\<rparr>"
    by (rule put_Inr)
  from assms(2) obtain val2' b2 where a2: "Bloom_add (bloom ?s1) key = Inr b2"
    "?s2 = ?s1\<lparr>mm := put_mm ?s1 key val2', bloom := b2, header_dirty := True\<rparr>"
    by (rule put_Inr)
  have "bloom ?s1 = b1" by (simp add: a1(2))
  with a2(1) have "Bloom_add b1 key = Inr b2" by simp
  with a1(1) have "Bloom_contains b2 key = Inr True" by (rule Bloom_add_twice)
  moreover have "bloom ?s2 = b2" by (simp add: a2(2))
  ultimately have "Bloom_contains (bloom ?s2) key = Inr True" by simp
  then show ?thesis using get_after_put [OF assms(2,3)] by simp
qed

theorem put_put_get_newest_witness:
  "get (snd (put (snd (put demo_store key_KEY (Bytes val_v1))) key_KEY (Bytes val_v2))) key_KEY
   = Some (Inr (Some val_v2),
       snd (put (snd (put demo_store key_KEY (Bytes val_v1))) key_KEY (Bytes val_v2)))"
proof -
  have e1: "encode_value (Bytes val_v1) = Inr val_v1" and e2: "encode_value (Bytes val_v2) = Inr val_v2"
    by (simp_all add: encode_value_def)
  have p1: "fst (put demo_store key_KEY (Bytes val_v1)) = Inr ()"
    by (rule put_succeeds [OF usable_demo_store _ e1])
      (simp_all add: demo_store_def key_KEY_def val_v1_def)
  have u1: "usable (snd (put demo_store key_KEY (Bytes val_v1)))"
    by (rule usable_put [OF usable_demo_store p1 e1])
      (simp add: demo_store_def key_KEY_def val_v1_def)
  have p2: "fst (put (snd (put demo_store key_KEY (Bytes val_v1))) key_KEY (Bytes val_v2)) = Inr ()"
  proof (rule put_succeeds [OF u1 _ e2])
    have "key_size (snd (put demo_store key_KEY (Bytes val_v1))) = key_size demo_store"
      by (rule put_fields [OF p1 e1])
    then show "length key_KEY = key_size (snd (put demo_store key_KEY (Bytes val_v1)))"
      by (simp add: demo_store_def key_KEY_def)
    show "length val_v2 < 2 ^ 32" by (simp add: val_v2_def)
  qed
  show ?thesis by (rule put_put_get_newest [OF p1 p2 e2])
qed

text \<open>
  C8 (wrong key length). \<open>put\<close> fails with the key-length \<^verbatim>\<open>ValueError\<close> exactly when
  the length of the key differs from \<open>key_size\<close>. After such a failure the store is the
  store it was, so it remains usable: on a usable store a following \<open>put\<close> of a key of
  the right length succeeds, and the \<open>get\<close> of that key returns without raising.
\<close>

theorem put_key_length_mismatch:
  "(fst (put st key v) = Inl (ValueError ''Key length mismatch'') \<longleftrightarrow> length key \<noteq> key_size st)
   \<and> (length key \<noteq> key_size st \<longrightarrow>
        snd (put st key v) = st
        \<and> (usable st \<and> length k2 = key_size st \<and> length v2 < 2 ^ 32 \<longrightarrow>
             fst (put (snd (put st key v)) k2 (Bytes v2)) = Inr ()
             \<and> (\<exists>r. get (snd (put (snd (put st key v)) k2 (Bytes v2))) k2
                      = Some (Inr r, snd (put (snd (put st key v)) k2 (Bytes v2))))))"
proof (intro conjI impI)
  show "fst (put st key v) = Inl (ValueError ''Key length mismatch'') \<longleftrightarrow> length key \<noteq> key_size st"
    by (rule put_mismatch_iff)
next
  assume "length key \<noteq> key_size st"
  then show same: "snd (put st key v) = st" by (simp add: put_def)
  assume u: "usable st \<and> length k2 = key_size st \<and> length v2 < 2 ^ 32"
  have e: "encode_value (Bytes v2) = Inr v2" by (simp add: encode_value_def)
  from u have p: "fst (put st k2 (Bytes v2)) = Inr ()"
    using put_succeeds [OF _ _ e] by simp
  then show "fst (put (snd (put st key v)) k2 (Bytes v2)) = Inr ()" by (simp add: same)
  from p obtain b' where
    "Bloom_add (bloom st) k2 = Inr b'"
    "snd (put st k2 (Bytes v2)) = st\<lparr>mm := put_mm st k2 v2, bloom := b', header_dirty := True\<rparr>"
    using e by (auto elim!: put_Inr)
  then obtain c where "Bloom_contains (bloom (snd (put st k2 (Bytes v2)))) k2 = Inr c"
    using Bloom_contains_after_add [of "bloom st" k2 b'] by auto
  then have "\<exists>r. get (snd (put st k2 (Bytes v2))) k2 = Some (Inr r, snd (put st k2 (Bytes v2)))"
    using get_after_put [OF p e] by (cases c) simp_all
  then show "\<exists>r. get (snd (put (snd (put st key v)) k2 (Bytes v2))) k2
                 = Some (Inr r, snd (put (snd (put st key v)) k2 (Bytes v2)))"
    by (simp add: same)
qed

theorem put_key_length_mismatch_witness:
  "fst (put demo_store key_short (Bytes val_x)) = Inl (ValueError ''Key length mismatch'')
   \<and> snd (put demo_store key_short (Bytes val_x)) = demo_store
   \<and> fst (put (snd (put demo_store key_short (Bytes val_x))) key_one (Bytes val_hello)) = Inr ()
   \<and> (\<exists>r. get (snd (put (snd (put demo_store key_short (Bytes val_x))) key_one (Bytes val_hello)))
             key_one
           = Some (Inr r,
               snd (put (snd (put demo_store key_short (Bytes val_x))) key_one (Bytes val_hello))))"
proof -
  have l: "length key_short \<noteq> key_size demo_store"
    by (simp add: key_short_def demo_store_def)
  have u: "usable demo_store \<and> length key_one = key_size demo_store
           \<and> length val_hello < (2::nat) ^ 32"
    using usable_demo_store by (simp add: key_one_def demo_store_def val_hello_def)
  show ?thesis
    using put_key_length_mismatch [of demo_store key_short "Bytes val_x" key_one val_hello] l u
    by blast
qed

text \<open>
  C10 (atomic failure). When \<open>put\<close> raises because the key has the wrong length, nothing
  has been modified: the file image with its bucket table, the filter and the dirty flag
  are those of the store before the call.
\<close>

theorem put_key_length_mismatch_atomic:
  "length key \<noteq> key_size st \<Longrightarrow>
   put st key v = (Inl (ValueError ''Key length mismatch''), st)"
  by (simp add: put_def)

theorem put_key_length_mismatch_atomic_witness:
  "length key_short \<noteq> key_size demo_store
   \<and> put demo_store key_short (Bytes val_x) = (Inl (ValueError ''Key length mismatch''), demo_store)"
proof -
  have l: "length key_short \<noteq> key_size demo_store"
    by (simp add: key_short_def demo_store_def)
  from put_key_length_mismatch_atomic [OF l] l show ?thesis by simp
qed

text \<open>
  C9 (\<open>get\<close> is read-only). Whenever \<open>get\<close> returns, with a value, with absent or with an
  exception, the store it leaves is the store it was given: same file image, same filter,
  same dirty flag.
\<close>

theorem get_read_only:
  "get st key = Some (r, st') \<Longrightarrow>
   st' = st \<and> mm st' = mm st \<and> bloom st' = bloom st \<and> header_dirty st' = header_dirty st"
  by (auto simp: get_def split: sum.splits bool.splits if_splits)

theorem get_read_only_witness:
  "get (snd (put demo_store key_one (Bytes val_hello))) key_one
   = Some (Inr (Some val_hello), snd (put demo_store key_one (Bytes val_hello)))"
proof -
  let ?s = "snd (put demo_store key_one (Bytes val_hello))"
  have e: "encode_value (Bytes val_hello) = Inr val_hello" by (simp add: encode_value_def)
  have p: "fst (put demo_store key_one (Bytes val_hello)) = Inr ()"
    by (rule put_succeeds [OF usable_demo_store _ e])
      (simp_all add: demo_store_def key_one_def val_hello_def)
  from p obtain b' where b: "Bloom_add (bloom demo_store) key_one = Inr b'"
    "?s = demo_store\<lparr>mm := put_mm demo_store key_one val_hello, bloom := b',
            header_dirty := True\<rparr>"
    using e by (auto elim!: put_Inr)
  have "covers (bloom demo_store)" by (simp add: covers_def demo_store_def)
  from Bloom_add_covers [OF this b(1)] have "Bloom_contains (bloom ?s) key_one = Inr True"
    by (simp add: b(2))
  then have "map_option fst (get ?s key_one) = Some (Inr (Some val_hello))"
    using get_after_put [OF p e] by simp
  then obtain st' where g: "get ?s key_one = Some (Inr (Some val_hello), st')"
    by auto
  from get_read_only [OF g] g show ?thesis by simp
qed

section \<open>Claims about the chain walk\<close>

text \<open>
  C6 (corrupt chain), as stated: for every key and every file image \<open>get\<close> returns a
  stored value or absent without raising. It fails on a file whose bucket head points past
  the end of the file: \<open>get\<close> raises \<^verbatim>\<open>struct.error\<close>.
\<close>

theorem get_corrupt_chain_raises:
  "open_existing corrupt_file 8 (10, 7) = Inr corrupt_store
   \<and> get corrupt_store key_one = Some (Inl StructError, corrupt_store)"
proof -
  have c: "Bloom_contains (bloom corrupt_store) key_one = Inr True"
    by (rule Bloom_contains_full) (auto simp: covers_def corrupt_store_def)
  have h: "bucket_head (mm corrupt_store) 0 = 1000"
    by (simp add: bucket_head_def bucket_offset_def corrupt_store_def corrupt_file_def bslice_def)
  have "chain_walk (mm corrupt_store) 8 (key_hash key_one) key_one 1000 = Some (Inl StructError)"
    by (rule chain_walk_stops) (simp_all add: corrupt_store_def corrupt_file_def)
  then have "get corrupt_store key_one = Some (Inl StructError, corrupt_store)"
    using h by (intro get_single_segment [OF c]) (simp_all add: corrupt_store_def corrupt_file_def)
  then show ?thesis using open_corrupt_file by simp
qed

text \<open>
  C6, amended. \<open>get\<close> has no handling of a corrupt chain. If the filter test raises,
  \<open>get\<close> raises the same exception; if the filter answers false, \<open>get\<close> returns absent.
  If the filter answers true, the store has at least one segment and the bucket slot of the
  key lies inside the file, then: when the walk from the bucket head, through entries that
  lie inside the file and do not match, comes to a non-zero offset below \<open>2^63\<close> with
  fewer than 20 bytes of file after it, \<open>get\<close> raises \<^verbatim>\<open>struct.error\<close>; when it
  comes to an offset from \<open>2^63\<close> on, \<open>get\<close> raises \<^verbatim>\<open>OverflowError\<close>; and when the
  file is shorter than \<open>2^63\<close> bytes and every entry of the chain from the bucket head
  lies inside the file with a \<open>next_offset\<close> smaller than its own offset, \<open>get\<close>
  terminates without raising and returns a stored value or absent.
\<close>

theorem get_outcomes:
  "(Bloom_contains (bloom st) key = Inl err \<longrightarrow> get st key = Some (Inl err, st))
   \<and> (Bloom_contains (bloom st) key = Inr False \<longrightarrow> get st key = Some (Inr None, st))
   \<and> (Bloom_contains (bloom st) key = Inr True \<and> 0 < segments st
        \<and> bucket_offset (segment_of st (key_hash key)) + 8 \<le> length (mm st) \<longrightarrow>
         (walk_reaches n (mm st) (key_size st) (key_hash key) key
            (bucket_head (mm st) (segment_of st (key_hash key))) e
          \<and> e \<noteq> 0 \<and> e < 2 ^ 63 \<and> length (mm st) < e + 20
          \<longrightarrow> get st key = Some (Inl StructError, st))
       \<and> (walk_reaches n (mm st) (key_size st) (key_hash key) key
            (bucket_head (mm st) (segment_of st (key_hash key))) e
          \<and> 2 ^ 63 \<le> e
          \<longrightarrow> get st key = Some (Inl OverflowError, st))
       \<and> (chain_ok (mm st) lo (bucket_head (mm st) (segment_of st (key_hash key)))
          \<and> length (mm st) < 2 ^ 63
          \<longrightarrow> (\<exists>r. get st key = Some (Inr r, st))))"
proof (intro conjI impI)
  show "get st key = Some (Inl err, st)" if "Bloom_contains (bloom st) key = Inl err"
    using that by (simp add: get_def)
  show "get st key = Some (Inr None, st)" if "Bloom_contains (bloom st) key = Inr False"
    using that by (simp add: get_def)
next
  assume a: "Bloom_contains (bloom st) key = Inr True \<and> 0 < segments st
        \<and> bucket_offset (segment_of st (key_hash key)) + 8 \<le> length (mm st)"
  let ?head = "bucket_head (mm st) (segment_of st (key_hash key))"
  have g: "get st key = map_option (\<lambda>r. (r, st))
      (chain_walk (mm st) (key_size st) (key_hash key) key ?head)"
    using a by (intro get_walk) simp_all
  {
    assume "walk_reaches n (mm st) (key_size st) (key_hash key) key ?head e
          \<and> e \<noteq> 0 \<and> e < 2 ^ 63 \<and> length (mm st) < e + 20"
    then show "get st key = Some (Inl StructError, st)"
      using walk_reaches_same [of n "mm st" "key_size st" "key_hash key" key ?head e]
      by (simp add: g chain_walk_stops)
  next
    assume "walk_reaches n (mm st) (key_size st) (key_hash key) key ?head e \<and> 2 ^ 63 \<le> e"
    then show "get st key = Some (Inl OverflowError, st)"
      using walk_reaches_same [of n "mm st" "key_size st" "key_hash key" key ?head e]
      by (simp add: g chain_walk_overflow)
  next
    assume "chain_ok (mm st) lo ?head \<and> length (mm st) < 2 ^ 63"
    then obtain r where "chain_walk (mm st) (key_size st) (key_hash key) key ?head = Some (Inr r)"
      using chain_walk_terminates by blast
    then show "\<exists>r. get st key = Some (Inr r, st)" by (simp add: g)
  }
qed

theorem get_outcomes_witness:
  "get blind_store key_KEY = Some (Inl IndexError, blind_store)
   \<and> get demo_store key_one = Some (Inr None, demo_store)
   \<and> get dangling_store key_one = Some (Inl StructError, dangling_store)
   \<and> get far_store key_one = Some (Inl OverflowError, far_store)
   \<and> (\<exists>r. get small_store_put key_five = Some (Inr r, small_store_put))"
proof (intro conjI)
  have "Bloom_contains (bloom blind_store) key_KEY = Inl IndexError"
    by (simp add: Bloom_contains_def blind_store_def upt_7)
  with get_outcomes [of blind_store key_KEY IndexError]
  show "get blind_store key_KEY = Some (Inl IndexError, blind_store)" by blast
next
  have "Bloom_contains (bloom demo_store) key_one = Inr False"
    by (simp add: Bloom_contains_def hash_pair_key_one demo_store_def upt_7)
  with get_outcomes [of demo_store key_one]
  show "get demo_store key_one = Some (Inr None, demo_store)" by blast
next
  have c: "Bloom_contains (bloom dangling_store) key_one = Inr True"
    by (rule Bloom_contains_full) (auto simp: covers_def dangling_store_def)
  have s: "segment_of dangling_store (key_hash key_one) = 0"
    by (simp add: segment_of_def dangling_store_def)
  have a: "0 < segments dangling_store
      \<and> bucket_offset (segment_of dangling_store (key_hash key_one)) + 8
          \<le> length (mm dangling_store)"
    unfolding s by (simp add: bucket_offset_def dangling_store_def)
  have w: "walk_reaches (Suc 0) (mm dangling_store) (key_size dangling_store) (key_hash key_one)
      key_one (bucket_head (mm dangling_store) (segment_of dangling_store (key_hash key_one)))
      1000
      \<and> (1000::nat) \<noteq> 0 \<and> (1000::nat) < 2 ^ 63 \<and> length (mm dangling_store) < 1000 + 20"
    unfolding s
    by (simp add: dangling_store_def bucket_head_def bucket_offset_def bslice_def entry_next_def
        key_one_def)
  from get_outcomes [of dangling_store key_one _ "Suc 0" 1000] c a w
  show "get dangling_store key_one = Some (Inl StructError, dangling_store)" by blast
next
  have c: "Bloom_contains (bloom far_store) key_one = Inr True"
    by (rule Bloom_contains_full) (auto simp: covers_def far_store_def)
  have s: "segment_of far_store (key_hash key_one) = 0"
    by (simp add: segment_of_def far_store_def)
  have a: "0 < segments far_store
      \<and> bucket_offset (segment_of far_store (key_hash key_one)) + 8 \<le> length (mm far_store)"
    unfolding s by (simp add: bucket_offset_def far_store_def)
  have w: "walk_reaches 0 (mm far_store) (key_size far_store) (key_hash key_one)
      key_one (bucket_head (mm far_store) (segment_of far_store (key_hash key_one)))
      9223372036854775808
      \<and> (2::nat) ^ 63 \<le> 9223372036854775808"
    unfolding s
    by (simp add: far_store_def bucket_head_def bucket_offset_def bslice_def)
  from get_outcomes [of far_store key_one _ 0 9223372036854775808] c a w
  show "get far_store key_one = Some (Inl OverflowError, far_store)" by blast
next
  have c: "Bloom_contains (bloom small_store_put) key_five = Inr True"
    using contains_key_five by (simp add: small_store_put_def)
  have s: "segment_of small_store_put (key_hash key_five) = 0"
    by (simp add: segment_of_def small_store_put_def)
  have a: "0 < segments small_store_put
      \<and> bucket_offset (segment_of small_store_put (key_hash key_five)) + 8
          \<le> length (mm small_store_put)"
    unfolding s by (simp add: bucket_offset_def small_store_put_def)
  have "chain_ok (mm small_store_put) (24 + 8 * segments small_store_put)
      (bucket_head (mm small_store_put) 0)"
    using chains_ok_small_store_put by (simp add: chains_ok_def small_store_put_def)
  then have w: "chain_ok (mm small_store_put) (24 + 8 * segments small_store_put)
      (bucket_head (mm small_store_put) (segment_of small_store_put (key_hash key_five)))
      \<and> length (mm small_store_put) < 2 ^ 63"
    unfolding s by (simp add: small_store_put_def)
  from get_outcomes [of small_store_put key_five _ 0 0 "24 + 8 * segments small_store_put"] c a w
  show "\<exists>r. get small_store_put key_five = Some (Inr r, small_store_put)" by blast
qed

section \<open>Properties that the code breaks, at failing inputs\<close>

text \<open>
  C7 (chain order), at a failing input. A new store with one segment, one \<open>put\<close>, then
  \<open>flush\<close>: the filter has two bytes while the file reserved one, so \<open>flush\<close> writes the
  second filter byte over the low byte of the \<open>next_offset\<close> of the entry at 33. The chains
  were sound after the \<open>put\<close> and are not after the \<open>flush\<close>: the traversal from the bucket
  head visits 33, then 2, then 281509336461651, and ends in \<^verbatim>\<open>struct.error\<close>, not at 0.
\<close>

theorem flush_breaks_chain:
  "put small_store key_one (Bytes val_hello) = (Inr (), small_store_put)
   \<and> chains_ok small_store_put
   \<and> flush small_store_put = (Inr (), small_store_flushed)
   \<and> \<not> chains_ok small_store_flushed
   \<and> bucket_head (mm small_store_flushed) 0 = 33
   \<and> entry_next (mm small_store_flushed) 33 = 2
   \<and> entry_next (mm small_store_flushed) 2 = 281509336461651
   \<and> get small_store_flushed key_five = Some (Inl StructError, small_store_flushed)"
proof -
  have "get small_store_flushed key_five = Some (Inl StructError, small_store_flushed)"
    by (rule get_after_flush_five) (simp_all add: small_store_flushed_def)
  then show ?thesis
    using put_small_store chains_ok_small_store_put flush_small_store_put not_chains_ok_flushed
      flushed_chain
    by simp
qed

text \<open>
  C3 (persistence), at a failing input. On the same new store the key \<open>pack(5)\<close> was never
  put; the filter answers true for it and it falls in the only segment. Before \<open>close\<close>,
  \<open>get\<close> returns absent; after \<open>close\<close> and reopening with the same key size and rate,
  \<open>get\<close> raises \<^verbatim>\<open>struct.error\<close>.
\<close>

theorem reopen_changes_get:
  "create_new 8 1 (10, 7) = Inr small_store
   \<and> put small_store key_one (Bytes val_hello) = (Inr (), small_store_put)
   \<and> get small_store_put key_five = Some (Inr None, small_store_put)
   \<and> close small_store_put = Inr put_closed_file
   \<and> open_existing put_closed_file 8 (10, 7) = Inr put_reopened_store
   \<and> get put_reopened_store key_five = Some (Inl StructError, put_reopened_store)"
proof -
  have "get put_reopened_store key_five = Some (Inl StructError, put_reopened_store)"
    by (rule get_after_flush_five) (simp_all add: put_reopened_store_def)
  then show ?thesis
    using create_small_store put_small_store get_small_store_put_five close_small_store_put
      open_put_closed_file
    by simp
qed

text \<open>
  C2 (no false negatives), at a failing input. The file of a store created with the
  defaults and not yet flushed is opened: one filter byte is reloaded and \<open>m\<close> is 10. The
  first \<open>put\<close> grows the byte array while the indices of its key are being set, \<open>m\<close>
  becomes 16, and the membership test, now modulo 16, answers false for the key just put.
\<close>

theorem put_key_not_in_filter:
  "create_new 8 256 (10, 7) = Inr demo_store
   \<and> open_existing (mm demo_store) 8 (10, 7) = Inr unflushed_store
   \<and> fst (put unflushed_store key_one (Bytes val_hello)) = Inr ()
   \<and> bloom (snd (put unflushed_store key_one (Bytes val_hello)))
       = \<lparr>bloom_m = 16, bloom_k = 7, bloom_bits = [162, 42]\<rparr>
   \<and> Bloom_contains (bloom (snd (put unflushed_store key_one (Bytes val_hello)))) key_one
       = Inr False"
proof -
  have e: "encode_value (Bytes val_hello) = Inr val_hello" by (simp add: encode_value_def)
  have p: "fst (put unflushed_store key_one (Bytes val_hello)) = Inr ()"
    by (rule put_succeeds [OF usable_unflushed _ e])
      (simp_all add: unflushed_store_def key_one_def val_hello_def)
  from p obtain val b' where "Bloom_add (bloom unflushed_store) key_one = Inr b'"
    "snd (put unflushed_store key_one (Bytes val_hello))
     = unflushed_store\<lparr>mm := put_mm unflushed_store key_one val, bloom := b',
         header_dirty := True\<rparr>"
    by (auto elim!: put_Inr)
  then have b: "bloom (snd (put unflushed_store key_one (Bytes val_hello)))
      = \<lparr>bloom_m = 16, bloom_k = 7, bloom_bits = [162, 42]\<rparr>"
    using add_unflushed by simp
  show ?thesis using create_demo_store open_unflushed p b contains_grown by simp
qed

text \<open>
  C1 (round trip), at a failing input. On the same reopened store, \<open>put(k, v)\<close> and
  \<open>flush\<close> succeed and \<open>get(k)\<close> then returns absent, not \<open>v\<close>: the filter answers false
  for the key.
\<close>

theorem put_flush_get_absent:
  "open_existing (mm demo_store) 8 (10, 7) = Inr unflushed_store
   \<and> fst (put unflushed_store key_one (Bytes val_hello)) = Inr ()
   \<and> fst (flush (snd (put unflushed_store key_one (Bytes val_hello)))) = Inr ()
   \<and> get (snd (flush (snd (put unflushed_store key_one (Bytes val_hello))))) key_one
       = Some (Inr None, snd (flush (snd (put unflushed_store key_one (Bytes val_hello)))))"
proof -
  let ?s = "snd (put unflushed_store key_one (Bytes val_hello))"
  have e: "encode_value (Bytes val_hello) = Inr val_hello" by (simp add: encode_value_def)
  have p: "fst (put unflushed_store key_one (Bytes val_hello)) = Inr ()"
    by (rule put_succeeds [OF usable_unflushed _ e])
      (simp_all add: unflushed_store_def key_one_def val_hello_def)
  from p obtain val b' where b': "Bloom_add (bloom unflushed_store) key_one = Inr b'"
    "?s = unflushed_store\<lparr>mm := put_mm unflushed_store key_one val, bloom := b',
         header_dirty := True\<rparr>"
    by (auto elim!: put_Inr)
  then have b: "bloom ?s = \<lparr>bloom_m = 16, bloom_k = 7, bloom_bits = [162, 42]\<rparr>"
    using add_unflushed by simp
  have ks: "key_size ?s = 8" "segments ?s = 256"
    using put_fields(1,2) [OF p e] by (simp_all add: unflushed_store_def)
  have len: "length (mm ?s) = 2106"
    using put_fields(3) [OF p e]
    by (simp add: unflushed_store_def demo_store_def key_one_def val_hello_def)
  have f: "fst (flush ?s) = Inr ()"
    by (rule flush_ok) (simp_all add: ks len b)
  have "Bloom_contains (bloom (snd (flush ?s))) key_one = Inr False"
    using contains_grown by (simp add: flush_bloom b)
  then have "get (snd (flush ?s)) key_one = Some (Inr None, snd (flush ?s))"
    by (rule get_filter_false)
  then show ?thesis using open_unflushed p f by simp
qed


end
